theory Spec2Isabelle
  imports Complex_Main "HOL-Library.AList" "HOL-Library.Product_Lexorder"
begin

section \<open>Model residency: \<^verbatim>\<open>src/ai/memory_manager.py\<close>\<close>

text \<open>
  \<^verbatim>\<open>ModelInfo\<close> is a mutable dataclass. The manager keeps two dictionaries of
  references to such objects, \<^verbatim>\<open>model_specs\<close> and \<^verbatim>\<open>loaded_models\<close>, and
  \<^verbatim>\<open>smart_model_load\<close> stores the very object of \<^verbatim>\<open>model_specs\<close> into
  \<^verbatim>\<open>loaded_models\<close>. The two dictionaries are therefore association lists (in
  insertion order, as Python dictionaries are) from names to addresses of an explicit
  object store.
\<close>

subsection \<open>Floating point\<close>

text \<open>
  A Python float is the real number it denotes, and comparisons of floats are comparisons
  of these numbers. The operations that round, \<^verbatim>\<open>+\<close>, \<^verbatim>\<open>-\<close> and \<^verbatim>\<open>sum\<close>, are not the
  operations of the reals: the manager is parametrised by them. Not-a-number and the
  infinities are left out.
\<close>

record float_arith =
  fadd :: "real \<Rightarrow> real \<Rightarrow> real"
  fsub :: "real \<Rightarrow> real \<Rightarrow> real"
  fsum :: "real list \<Rightarrow> real"

text \<open>
  The arithmetic of Python's floats, IEEE 754 binary64 with rounding to the nearest value
  and ties to the even significand. \<open>binade n x\<close> is the exponent \<open>e\<close> with
  \<open>2^e \<le> x < 2^(e+1)\<close>, found in at most \<open>n\<close> doublings or halvings (2200 reach every
  positive binary64 value); \<open>ulp x\<close> is the spacing of the binary64 values around \<open>x\<close>, with
  the fixed spacing of the subnormal range below \<open>2^-1022\<close>. Overflow beyond the largest
  binary64 value is not modelled. \<open>py_sum\<close> is \<^verbatim>\<open>sum\<close> adding from left to right,
  starting at the integer 0, as it does up to Python 3.11; the compensated \<^verbatim>\<open>sum\<close> of
  later versions is another value of the parameter \<open>fsum\<close>.
\<close>

definition round_to_even :: "real \<Rightarrow> int" where
  "round_to_even y =
     (let f = \<lfloor>y\<rfloor>; d = y - of_int f
      in if d < 1 / 2 then f
         else if 1 / 2 < d then f + 1
         else if even f then f else f + 1)"

fun binade :: "nat \<Rightarrow> real \<Rightarrow> int" where
  "binade 0 x = 0"
| "binade (Suc n) x =
     (if x < 1 then binade n (2 * x) - 1
      else if 2 \<le> x then binade n (x / 2) + 1
      else 0)"

definition ulp :: "real \<Rightarrow> real" where
  "ulp x =
     (let e = max (binade 2200 \<bar>x\<bar>) (- 1022)
      in if 52 \<le> e then 2 ^ nat (e - 52) else 1 / 2 ^ nat (52 - e))"

definition round_double :: "real \<Rightarrow> real" where
  "round_double x = (if x = 0 then 0 else of_int (round_to_even (x / ulp x)) * ulp x)"

definition py_sum :: "real list \<Rightarrow> real" where
  "py_sum xs = foldl (\<lambda>s x. round_double (s + x)) 0 xs"

definition double_arith :: float_arith where
  "double_arith =
     \<lparr>fadd = (\<lambda>x y. round_double (x + y)), fsub = (\<lambda>x y. round_double (x - y)),
      fsum = py_sum\<rparr>"

text \<open>Arithmetic without rounding, for comparison.\<close>

definition exact_arith :: float_arith where
  "exact_arith = \<lparr>fadd = (+), fsub = (-), fsum = sum_list\<rparr>"

subsection \<open>The manager\<close>

record ModelInfo =
  name :: string
  size_gb :: real
  last_used :: real
  load_time :: real
  usage_count :: int
  priority :: int
  status :: string

type_synonym addr = nat

record manager =
  max_memory_gb :: real
  heap :: "addr \<Rightarrow> ModelInfo"
  loaded_models :: "(string \<times> addr) list"
  model_specs :: "(string \<times> addr) list"

text \<open>
  The catalogue entry built in \<^verbatim>\<open>__init__\<close>: \<^verbatim>\<open>ModelInfo('tinyllama', 0.6, 0, 0, 0, 1)\<close>.
  The literal \<^verbatim>\<open>0.6\<close> is the binary64 value nearest to 6/10.
\<close>

definition tinyllama_spec :: ModelInfo where
  "tinyllama_spec =
     \<lparr>name = ''tinyllama'', size_gb = round_double (6 / 10), last_used = 0, load_time = 0,
      usage_count = 0, priority = 1, status = ''unloaded''\<rparr>"

text \<open>
  \<^verbatim>\<open>_load_state\<close>: every entry of the state file becomes a fresh \<^verbatim>\<open>ModelInfo\<close> object,
  assigned to \<^verbatim>\<open>loaded_models[model_name]\<close>. The argument is the list of entries read
  from the file (empty when the file is missing or unreadable); the last argument is the
  next unused address.
\<close>

fun load_state :: "manager \<Rightarrow> (string \<times> ModelInfo) list \<Rightarrow> addr \<Rightarrow> manager" where
  "load_state m [] fresh = m"
| "load_state m ((model_name, model_data) # rest) fresh =
     load_state
       (m\<lparr>heap := (heap m)(fresh := model_data),
          loaded_models := AList.update model_name fresh (loaded_models m)\<rparr>)
       rest (Suc fresh)"

text \<open>
  \<^verbatim>\<open>__init__\<close>: \<^verbatim>\<open>max_memory_gb or self._detect_max_memory()\<close> takes the detected
  value when the argument is \<^verbatim>\<open>None\<close> or zero. The catalogue object lives at address 0.
\<close>

definition init_manager ::
    "real option \<Rightarrow> real \<Rightarrow> (string \<times> ModelInfo) list \<Rightarrow> manager" where
  "init_manager max_memory_arg detected state_file_entries =
     load_state
       \<lparr>max_memory_gb =
          (case max_memory_arg of
             None \<Rightarrow> detected
           | Some v \<Rightarrow> if v = 0 then detected else v),
        heap = (\<lambda>_. tinyllama_spec),
        loaded_models = [],
        model_specs = [(''tinyllama'', 0)]\<rparr>
       state_file_entries 1"

text \<open>\<^verbatim>\<open>_get_current_memory_usage\<close>: Python's \<^verbatim>\<open>sum\<close> over the loaded models.\<close>

definition is_loaded :: "(addr \<Rightarrow> ModelInfo) \<Rightarrow> string \<times> addr \<Rightarrow> bool" where
  "is_loaded h p = (status (h (snd p)) = ''loaded'')"

definition loaded_sizes :: "(addr \<Rightarrow> ModelInfo) \<Rightarrow> (string \<times> addr) list \<Rightarrow> real list" where
  "loaded_sizes h lm = map (\<lambda>p. size_gb (h (snd p))) (filter (is_loaded h) lm)"

definition get_current_memory_usage :: "float_arith \<Rightarrow> manager \<Rightarrow> real" where
  "get_current_memory_usage fa m = fsum fa (loaded_sizes (heap m) (loaded_models m))"

text \<open>
  The loop of \<^verbatim>\<open>_free_memory_for_model\<close> over \<^verbatim>\<open>models_to_unload\<close>, with the
  float operations \<^verbatim>\<open>current_usage - freed_memory\<close> and
  \<^verbatim>\<open>freed_memory += model_info.size_gb\<close>. It returns the store and, in order, the names
  it unloaded (one \<^verbatim>\<open>logger.info("Unloading ...")\<close> each).
\<close>

fun unload_loop ::
    "float_arith \<Rightarrow> real \<Rightarrow> real \<Rightarrow> (string \<times> addr) list \<Rightarrow> real \<Rightarrow>
     (addr \<Rightarrow> ModelInfo) \<Rightarrow> (addr \<Rightarrow> ModelInfo) \<times> string list" where
  "unload_loop fa current_usage target_usage [] freed_memory h = (h, [])"
| "unload_loop fa current_usage target_usage ((model_name, a) # rest) freed_memory h =
     (if fsub fa current_usage freed_memory \<le> target_usage then (h, [])
      else
        (case unload_loop fa current_usage target_usage rest
                (fadd fa freed_memory (size_gb (h a)))
                (h(a := (h a)\<lparr>status := ''unloaded''\<rparr>))
         of (h', names) \<Rightarrow> (h', model_name # names)))"

text \<open>The sort key \<^verbatim>\<open>(x[1].priority, x[1].last_used)\<close>, compared lexicographically.\<close>

definition unload_key :: "(addr \<Rightarrow> ModelInfo) \<Rightarrow> string \<times> addr \<Rightarrow> int \<times> real" where
  "unload_key h p = (priority (h (snd p)), last_used (h (snd p)))"

definition models_to_unload :: "manager \<Rightarrow> (string \<times> addr) list" where
  "models_to_unload m =
     sort_key (unload_key (heap m)) (filter (is_loaded (heap m)) (loaded_models m))"

text \<open>
  \<^verbatim>\<open>_free_memory_for_model\<close>: \<^verbatim>\<open>target_usage = self.max_memory_gb - required_gb\<close> is a
  float subtraction.
\<close>

definition free_memory_for_model ::
    "float_arith \<Rightarrow> manager \<Rightarrow> real \<Rightarrow> manager \<times> string list" where
  "free_memory_for_model fa m required_gb =
     (let current_usage = get_current_memory_usage fa m;
          target_usage = fsub fa (max_memory_gb m) required_gb
      in if current_usage \<le> target_usage then (m, [])
         else
           (case unload_loop fa current_usage target_usage (models_to_unload m) 0 (heap m)
            of (h', names) \<Rightarrow> (m\<lparr>heap := h'\<rparr>, names)))"

text \<open>
  What \<^verbatim>\<open>smart_model_load\<close> reads from outside: the three readings of
  \<^verbatim>\<open>time.time()\<close> (the fast path uses only the first) and how the probe
  \<^verbatim>\<open>await self.ollama.chat(...)\<close> ends. It returns, or it raises an \<^verbatim>\<open>Exception\<close>, which
  the handler of \<^verbatim>\<open>smart_model_load\<close> catches, or it raises another
  \<^verbatim>\<open>BaseException\<close>, such as \<^verbatim>\<open>asyncio.CancelledError\<close>, which
  \<^verbatim>\<open>except Exception\<close> does not catch.
\<close>

datatype probe_result = ProbeReturns | ProbeRaises | ProbeCancelled

record load_env =
  clock0 :: real
  probe :: probe_result
  clock1 :: real
  clock2 :: real

text \<open>How a call of \<^verbatim>\<open>smart_model_load\<close> ends: it returns a boolean or the exception leaves it.\<close>

datatype load_outcome = Returned bool | Raised

text \<open>
  \<^verbatim>\<open>smart_model_load\<close>, called with the lock free. The test
  \<^verbatim>\<open>current_memory + required_memory > self.max_memory_gb\<close> is a float addition.
  \<^verbatim>\<open>_save_state\<close> only writes the state file and swallows its own failures, so it
  does not appear. When the probe is cancelled the exception leaves the call with the
  status still \<^verbatim>\<open>'loading'\<close>.
\<close>

definition already_loaded :: "manager \<Rightarrow> string \<Rightarrow> bool" where
  "already_loaded m model_name =
     (case map_of (loaded_models m) model_name of
        None \<Rightarrow> False
      | Some a \<Rightarrow> status (heap m a) = ''loaded'')"

definition smart_model_load ::
    "float_arith \<Rightarrow> manager \<Rightarrow> string \<Rightarrow> load_env \<Rightarrow> load_outcome \<times> manager" where
  "smart_model_load fa m model_name env =
     (if already_loaded m model_name then
        (let a = the (map_of (loaded_models m) model_name)
         in (Returned True,
             m\<lparr>heap := (heap m)(a := (heap m a)
                  \<lparr>last_used := clock0 env,
                   usage_count := usage_count (heap m a) + 1\<rparr>)\<rparr>))
      else
        (case map_of (model_specs m) model_name of
           None \<Rightarrow> (Returned False, m)
         | Some a \<Rightarrow>
             (let required_memory = size_gb (heap m a);
                  current_memory = get_current_memory_usage fa m;
                  m1 = (if fadd fa current_memory required_memory > max_memory_gb m
                        then fst (free_memory_for_model fa m required_memory)
                        else m);
                  h_loading = (heap m1)(a := (heap m1 a)\<lparr>status := ''loading''\<rparr>)
              in case probe env of
                   ProbeReturns \<Rightarrow>
                     (Returned True,
                      m1\<lparr>heap := h_loading(a := (h_loading a)
                            \<lparr>last_used := clock2 env,
                             load_time := fsub fa (clock1 env) (clock0 env),
                             usage_count := usage_count (h_loading a) + 1,
                             status := ''loaded''\<rparr>),
                         loaded_models := AList.update model_name a (loaded_models m1)\<rparr>)
                 | ProbeRaises \<Rightarrow>
                     (Returned False,
                      m1\<lparr>heap := h_loading(a := (h_loading a)\<lparr>status := ''unloaded''\<rparr>)\<rparr>)
                 | ProbeCancelled \<Rightarrow> (Raised, m1\<lparr>heap := h_loading\<rparr>))))"

text \<open>A sequence of \<^verbatim>\<open>smart_model_load\<close> calls, each with its own environment.\<close>

fun run_loads :: "float_arith \<Rightarrow> manager \<Rightarrow> (string \<times> load_env) list \<Rightarrow> manager" where
  "run_loads fa m [] = m"
| "run_loads fa m ((model_name, env) # calls) =
     run_loads fa (snd (smart_model_load fa m model_name env)) calls"

text \<open>
  \<^verbatim>\<open>get_optimal_model\<close>, returning the name and the lines it logs.
\<close>

definition get_optimal_model :: "manager \<Rightarrow> string \<Rightarrow> string \<Rightarrow> string \<times> string list" where
  "get_optimal_model m task_type urgency =
     (let model_name = ''tinyllama''
      in if urgency = ''high'' \<and> already_loaded m model_name then
           (model_name,
            [''Using already loaded approved model '' @ model_name @ '' for urgent request''])
         else
           (model_name,
            [''Selected approved model '' @ model_name @ '' for task '' @
               [CHR 0x27] @ task_type @ [CHR 0x27]]))"

text \<open>
  The object graph of a manager is well formed when both dictionaries have distinct keys,
  no object is stored under two names, and an object of the catalogue can be in
  \<^verbatim>\<open>loaded_models\<close> only under its own name. \<^verbatim>\<open>__init__\<close> establishes this and
  \<^verbatim>\<open>smart_model_load\<close> keeps it.
\<close>

definition wf_manager :: "manager \<Rightarrow> bool" where
  "wf_manager m =
     (distinct (map fst (loaded_models m)) \<and> distinct (map snd (loaded_models m)) \<and>
      distinct (map fst (model_specs m)) \<and> distinct (map snd (model_specs m)) \<and>
      (\<forall>p \<in> set (loaded_models m). \<forall>q \<in> set (model_specs m). snd p = snd q \<longrightarrow> fst p = fst q))"

text \<open>
  Resident models as a state file can restore them, for concrete runs: \<open>A\<close> has
  priority 1 and the older \<^verbatim>\<open>last_used\<close>, \<open>B\<close> has priority 2; \<open>C\<close> is a second
  model of priority 1, used more recently than \<open>A\<close>; \<open>D\<close> has the size that Python
  writes \<^verbatim>\<open>1.1\<close>.
\<close>

definition model_A :: ModelInfo where
  "model_A = \<lparr>name = ''A'', size_gb = 1 / 2, last_used = 10, load_time = 1,
              usage_count = 3, priority = 1, status = ''loaded''\<rparr>"

definition model_B :: ModelInfo where
  "model_B = \<lparr>name = ''B'', size_gb = 1 / 2, last_used = 20, load_time = 1,
              usage_count = 5, priority = 2, status = ''loaded''\<rparr>"

definition model_C :: ModelInfo where
  "model_C = \<lparr>name = ''C'', size_gb = 1 / 2, last_used = 30, load_time = 1,
              usage_count = 1, priority = 1, status = ''loaded''\<rparr>"

definition model_D :: ModelInfo where
  "model_D = \<lparr>name = ''D'', size_gb = round_double (11 / 10), last_used = 10, load_time = 1,
              usage_count = 2, priority = 2, status = ''loaded''\<rparr>"

definition probe_ok :: load_env where
  "probe_ok = \<lparr>clock0 = 100, probe = ProbeReturns, clock1 = 102, clock2 = 103\<rparr>"

definition probe_fails :: load_env where
  "probe_fails = \<lparr>clock0 = 100, probe = ProbeRaises, clock1 = 102, clock2 = 103\<rparr>"

definition probe_cancelled :: load_env where
  "probe_cancelled = \<lparr>clock0 = 100, probe = ProbeCancelled, clock1 = 102, clock2 = 103\<rparr>"

text \<open>
  Auxiliary notions for the statements about eviction: the memory check of
  \<^verbatim>\<open>smart_model_load\<close> for the catalogue object at address \<open>a\<close> (its test and the
  eviction pass the test starts) together with the names the pass unloaded; the store
  after a list of entries has been unloaded; and the exact sum of the sizes of the loaded
  models.
\<close>

definition eviction_pass :: "float_arith \<Rightarrow> manager \<Rightarrow> addr \<Rightarrow> manager \<times> string list" where
  "eviction_pass fa m a =
     (if fadd fa (get_current_memory_usage fa m) (size_gb (heap m a)) > max_memory_gb m
      then free_memory_for_model fa m (size_gb (heap m a))
      else (m, []))"

definition unload_all ::
    "(string \<times> addr) list \<Rightarrow> (addr \<Rightarrow> ModelInfo) \<Rightarrow> (addr \<Rightarrow> ModelInfo)" where
  "unload_all ys h = (\<lambda>a. if a \<in> snd ` set ys then (h a)\<lparr>status := ''unloaded''\<rparr> else h a)"

definition exact_usage :: "manager \<Rightarrow> real" where
  "exact_usage m = sum_list (loaded_sizes (heap m) (loaded_models m))"

text \<open>
  For the analysis of the memory check in arithmetic that does not round: the exact sum of
  the sizes of the loaded entries of a dictionary, the exact sum of the sizes of a list of
  entries, and a catalogue in which every model by itself fits the budget.
\<close>

definition heap_usage :: "(addr \<Rightarrow> ModelInfo) \<Rightarrow> (string \<times> addr) list \<Rightarrow> real" where
  "heap_usage h lm = sum_list (loaded_sizes h lm)"

definition sizes :: "(addr \<Rightarrow> ModelInfo) \<Rightarrow> (string \<times> addr) list \<Rightarrow> real" where
  "sizes h ys = sum_list (map (\<lambda>p. size_gb (h (snd p))) ys)"

definition specs_fit :: "manager \<Rightarrow> bool" where
  "specs_fit m =
     (\<forall>q \<in> set (model_specs m).
        0 \<le> size_gb (heap m (snd q)) \<and> size_gb (heap m (snd q)) \<le> max_memory_gb m)"

section \<open>Adaptive batching: \<^verbatim>\<open>AdaptiveBatchingEngine\<close> in \<^verbatim>\<open>src/ai/advanced_ml_optimizer.py\<close>\<close>

text \<open>
  A pending request is the dictionary \<^verbatim>\<open>{'data', 'timestamp', 'batch_id'}\<close>; a history
  record is the dictionary built by \<^verbatim>\<open>record_batch_performance\<close> (its key
  \<^verbatim>\<open>'timestamp'\<close> is the field \<open>recorded_at\<close> here).
\<close>

record 'd request =
  data :: 'd
  timestamp :: real
  batch_id :: int

record batch_record =
  batch_size :: int
  processing_time :: real
  avg_query_length :: real
  system_load :: real
  memory_usage :: real
  recorded_at :: real

text \<open>
  The regression model is scikit-learn's \<^verbatim>\<open>Ridge\<close>, which is not part of the
  repository: the engine is parametrised by its three operations. \<open>ridge_fit\<close> gives
  the estimator after the call and whether the call raised; \<open>ridge_predict\<close> gives
  \<open>None\<close> when \<^verbatim>\<open>predict\<close> raises.
\<close>

record 'pm ridge_lib =
  ridge_new :: 'pm
  ridge_fit :: "'pm \<Rightarrow> real list list \<Rightarrow> real list \<Rightarrow> 'pm \<times> bool"
  ridge_predict :: "'pm \<Rightarrow> real list \<Rightarrow> real option"

text \<open>
  What the engine reads from the system: \<^verbatim>\<open>psutil\<close> and the clock. Times,
  loads and predictions are Python floats, read as real numbers.
\<close>

record sys_env =
  cpu_percent :: real
  memory_percent :: real
  now :: real

record ('d, 'pm) batching_engine =
  max_batch_size :: int
  max_wait_time :: real
  pending_requests :: "'d request list"
  batch_history :: "batch_record list"
  performance_model :: "'pm option"

datatype batch_error = ZeroDivisionError | FitError

text \<open>\<^verbatim>\<open>__init__\<close>, with the defaults 8 and 0.5 supplied by the caller.\<close>

definition init_batching_engine :: "int \<Rightarrow> real \<Rightarrow> ('d, 'pm) batching_engine" where
  "init_batching_engine max_batch max_wait =
     \<lparr>max_batch_size = max_batch, max_wait_time = max_wait, pending_requests = [],
      batch_history = [], performance_model = None\<rparr>"

text \<open>
  \<^verbatim>\<open>_train_performance_model\<close>. The division
  \<^verbatim>\<open>record['processing_time'] / record['batch_size']\<close> raises on a zero batch size,
  before anything is assigned. The estimator is assigned to \<^verbatim>\<open>performance_model\<close>
  before \<^verbatim>\<open>fit\<close> is called on it, and no exception is caught.
\<close>

definition record_features :: "batch_record \<Rightarrow> real list" where
  "record_features r =
     [real_of_int (batch_size r), avg_query_length r, system_load r, memory_usage r]"

definition train_performance_model ::
    "'pm ridge_lib \<Rightarrow> ('d, 'pm) batching_engine \<Rightarrow>
     batch_error option \<times> ('d, 'pm) batching_engine" where
  "train_performance_model lib e =
     (if length (batch_history e) < 10 then (None, e)
      else if \<exists>r \<in> set (batch_history e). batch_size r = 0 then (Some ZeroDivisionError, e)
      else
        (let X = map record_features (batch_history e);
             y = map (\<lambda>r. processing_time r / real_of_int (batch_size r)) (batch_history e);
             (pm, raised) = ridge_fit lib (ridge_new lib) X y
         in (if raised then Some FitError else None, e\<lparr>performance_model := Some pm\<rparr>)))"

text \<open>
  The call \<^verbatim>\<open>Ridge(alpha=1.0).fit(X, y)\<close> on the \<^verbatim>\<open>X\<close> and \<^verbatim>\<open>y\<close> that
  \<^verbatim>\<open>_train_performance_model\<close> builds from a history, for statements about it.
\<close>

definition fit_history :: "'pm ridge_lib \<Rightarrow> batch_record list \<Rightarrow> 'pm \<times> bool" where
  "fit_history lib history =
     ridge_fit lib (ridge_new lib) (map record_features history)
       (map (\<lambda>r. processing_time r / real_of_int (batch_size r)) history)"

text \<open>\<^verbatim>\<open>add_request\<close>\<close>

definition add_request ::
    "('d, 'pm) batching_engine \<Rightarrow> 'd \<Rightarrow> real \<Rightarrow> int \<times> ('d, 'pm) batching_engine" where
  "add_request e request_data time_now =
     (let bid = int (length (pending_requests e))
      in (bid,
          e\<lparr>pending_requests := pending_requests e @
               [\<lparr>data = request_data, timestamp = time_now, batch_id = bid\<rparr>]\<rparr>))"

text \<open>
  \<^verbatim>\<open>_predict_optimal_batch_size\<close>. \<open>str_len\<close> is \<^verbatim>\<open>len(str(req['data']))\<close>.
  \<^verbatim>\<open>best_efficiency\<close> starts at \<^verbatim>\<open>float('inf')\<close>, which is \<open>None\<close> here.
\<close>

definition efficiency_less :: "real \<Rightarrow> real option \<Rightarrow> bool" where
  "efficiency_less x best = (case best of None \<Rightarrow> True | Some b \<Rightarrow> x < b)"

definition mean :: "real list \<Rightarrow> real" where
  "mean xs = sum_list xs / real (length xs)"

definition try_size ::
    "'pm ridge_lib \<Rightarrow> 'pm \<Rightarrow> real list \<Rightarrow> int \<Rightarrow> int \<times> real option \<Rightarrow> int \<times> real option" where
  "try_size lib pm current_features sz best =
     (case ridge_predict lib pm (current_features[0 := real_of_int sz]) of
        None \<Rightarrow> best
      | Some predicted_time \<Rightarrow>
          (let efficiency = predicted_time * real_of_int sz
           in if efficiency_less efficiency (snd best) then (sz, Some efficiency) else best))"

definition predict_optimal_batch_size ::
    "'pm ridge_lib \<Rightarrow> ('d \<Rightarrow> nat) \<Rightarrow> sys_env \<Rightarrow> ('d, 'pm) batching_engine \<Rightarrow> int" where
  "predict_optimal_batch_size lib str_len env e =
     (case performance_model e of
        None \<Rightarrow> min (int (length (pending_requests e))) (max_batch_size e)
      | Some pm \<Rightarrow>
          if pending_requests e = [] then
            min (int (length (pending_requests e))) (max_batch_size e)
          else
            (let current_features =
                   [real (length (pending_requests e)),
                    mean (map (\<lambda>req. real (str_len (data req))) (take 5 (pending_requests e))),
                    cpu_percent env,
                    memory_percent env]
             in fst (fold (try_size lib pm current_features)
                       [1 ..
                         min (int (length (pending_requests e)) + 1) (max_batch_size e + 1) - 1]
                       (1, None))))"

text \<open>The \<^verbatim>\<open>while\<close> loop of \<^verbatim>\<open>get_optimal_batch\<close>: it gives the remaining queue and the batch.\<close>

fun drain_loop ::
    "int \<Rightarrow> 'a list \<Rightarrow> 'a list \<Rightarrow> 'a list \<times> 'a list" where
  "drain_loop optimal_size [] batch = ([], batch)"
| "drain_loop optimal_size (r # rest) batch =
     (if int (length batch) < optimal_size
      then drain_loop optimal_size rest (batch @ [r])
      else (r # rest, batch))"

definition get_optimal_batch ::
    "'pm ridge_lib \<Rightarrow> ('d \<Rightarrow> nat) \<Rightarrow> sys_env \<Rightarrow> ('d, 'pm) batching_engine \<Rightarrow>
     'd request list \<times> ('d, 'pm) batching_engine" where
  "get_optimal_batch lib str_len env e =
     (if pending_requests e = [] then ([], e)
      else
        (let optimal_size = predict_optimal_batch_size lib str_len env e;
             (remaining, batch) = drain_loop optimal_size (pending_requests e) []
         in (batch, e\<lparr>pending_requests := remaining\<rparr>)))"

text \<open>\<^verbatim>\<open>deque(maxlen=100).append\<close>: a full deque drops its oldest element.\<close>

definition deque_append :: "nat \<Rightarrow> 'a list \<Rightarrow> 'a \<Rightarrow> 'a list" where
  "deque_append maxlen xs x = (if length xs < maxlen then xs @ [x] else tl xs @ [x])"

text \<open>\<^verbatim>\<open>record_batch_performance\<close>; an exception of the training pass goes to the caller.\<close>

definition record_batch_performance ::
    "'pm ridge_lib \<Rightarrow> sys_env \<Rightarrow> ('d, 'pm) batching_engine \<Rightarrow> int \<Rightarrow> real \<Rightarrow> real \<Rightarrow>
     batch_error option \<times> ('d, 'pm) batching_engine" where
  "record_batch_performance lib env e size_of_batch time_taken query_length =
     (let r = \<lparr>batch_size = size_of_batch, processing_time = time_taken,
               avg_query_length = query_length, system_load = cpu_percent env,
               memory_usage = memory_percent env, recorded_at = now env\<rparr>;
          e1 = e\<lparr>batch_history := deque_append 100 (batch_history e) r\<rparr>
      in if length (batch_history e1) mod 10 = 0
         then train_performance_model lib e1
         else (None, e1))"

text \<open>One operation of a client of the scheduler, and the numbers \<^verbatim>\<open>add_request\<close> returned.\<close>

datatype 'd batch_op = Enqueue 'd real | Drain sys_env

fun run_batch_ops ::
    "'pm ridge_lib \<Rightarrow> ('d \<Rightarrow> nat) \<Rightarrow> ('d, 'pm) batching_engine \<Rightarrow> 'd batch_op list \<Rightarrow>
     int list" where
  "run_batch_ops lib str_len e [] = []"
| "run_batch_ops lib str_len e (Enqueue d t # ops) =
     fst (add_request e d t) # run_batch_ops lib str_len (snd (add_request e d t)) ops"
| "run_batch_ops lib str_len e (Drain env # ops) =
     run_batch_ops lib str_len (snd (get_optimal_batch lib str_len env e)) ops"

text \<open>
  For concrete runs: an estimator whose \<^verbatim>\<open>fit\<close> and \<^verbatim>\<open>predict\<close> always raise, a
  reading of the system, a history record, and an engine with three pending requests, nine
  history records and an estimator installed.
\<close>

definition failing_ridge :: "unit ridge_lib" where
  "failing_ridge =
     \<lparr>ridge_new = (), ridge_fit = (\<lambda>_ _ _. ((), True)), ridge_predict = (\<lambda>_ _. None)\<rparr>"

definition idle_system :: sys_env where
  "idle_system = \<lparr>cpu_percent = 10, memory_percent = 50, now = 1000\<rparr>"

definition sample_record :: batch_record where
  "sample_record =
     \<lparr>batch_size = 4, processing_time = 2, avg_query_length = 30, system_load = 10,
      memory_usage = 50, recorded_at = 900\<rparr>"

definition busy_engine :: "(string, unit) batching_engine" where
  "busy_engine =
     \<lparr>max_batch_size = 8, max_wait_time = 1 / 2,
      pending_requests =
        [\<lparr>data = ''q1'', timestamp = 1, batch_id = 0\<rparr>,
         \<lparr>data = ''q2'', timestamp = 2, batch_id = 1\<rparr>,
         \<lparr>data = ''q3'', timestamp = 3, batch_id = 2\<rparr>],
      batch_history = replicate 9 sample_record,
      performance_model = Some ()\<rparr>"

section \<open>Semantic cache: \<^verbatim>\<open>SemanticCacheEngine\<close> in \<^verbatim>\<open>src/ai/advanced_ml_optimizer.py\<close>\<close>

text \<open>
  A response is a Python dictionary from strings to values. A cache entry is the
  dictionary \<^verbatim>\<open>{'response', 'timestamp', 'access_count', 'last_accessed', 'query_sample'}\<close>
  (its \<^verbatim>\<open>'timestamp'\<close> is \<open>stored_at\<close> here); \<^verbatim>\<open>QueryEmbedding\<close> is the dataclass
  (its \<^verbatim>\<open>timestamp\<close> and \<^verbatim>\<open>usage_count\<close> are \<open>embedded_at\<close> and \<open>embedding_uses\<close>).
  Both dictionaries of the engine are association lists in insertion order. Similarities,
  thresholds and the components of an embedding are floats, read as real numbers.
\<close>

datatype pyval = PyStr string | PyFloat real | PyInt int | PyBool bool | PyNone

type_synonym response_dict = "string \<rightharpoonup> pyval"

record cache_entry =
  response :: response_dict
  stored_at :: real
  access_count :: int
  last_accessed :: real
  query_sample :: string

record QueryEmbedding =
  embedding :: "real list"
  hash_key :: string
  embedded_at :: real
  embedding_uses :: int
  quality_score :: pyval

text \<open>
  The library calls of the cache, which are not part of the repository:
  \<^verbatim>\<open>hashlib.md5(...).hexdigest()\<close>, the TF-IDF vectoriser (\<open>tfidf_fit\<close> gives the
  vectoriser after the call and whether the call raised, \<open>tfidf_transform\<close> gives
  \<open>None\<close> when it raises) and \<^verbatim>\<open>sklearn\<close>'s \<^verbatim>\<open>cosine_similarity\<close> (\<open>None\<close>
  when it raises, as on vectors of different lengths).
\<close>

record 'v text_lib =
  md5_hexdigest :: "string \<Rightarrow> string"
  tfidf_fit :: "'v \<Rightarrow> string list \<Rightarrow> 'v \<times> bool"
  tfidf_transform :: "'v \<Rightarrow> string \<Rightarrow> real list option"
  cosine_similarity :: "real list \<Rightarrow> real list \<Rightarrow> real option"

record 'v cache_engine =
  cache_size :: int
  similarity_threshold :: real
  cache :: "(string \<times> cache_entry) list"
  embeddings :: "(string \<times> QueryEmbedding) list"
  vectorizer :: 'v
  is_vectorizer_fitted :: bool

definition init_cache_engine :: "int \<Rightarrow> real \<Rightarrow> 'v \<Rightarrow> 'v cache_engine" where
  "init_cache_engine size_limit threshold fresh_vectorizer =
     \<lparr>cache_size = size_limit, similarity_threshold = threshold, cache = [],
      embeddings = [], vectorizer = fresh_vectorizer, is_vectorizer_fitted = False\<rparr>"

text \<open>\<^verbatim>\<open>str.lower\<close> on ASCII letters and \<^verbatim>\<open>int(c, 16)\<close> on a hexadecimal digit.\<close>

definition py_lower :: "string \<Rightarrow> string" where
  "py_lower s =
     map (\<lambda>c. if 65 \<le> (of_char c :: nat) \<and> (of_char c :: nat) \<le> 90
               then char_of ((of_char c :: nat) + 32) else c) s"

definition hex_digit :: "char \<Rightarrow> nat" where
  "hex_digit c =
     (let n = (of_char c :: nat)
      in if 48 \<le> n \<and> n \<le> 57 then n - 48
         else if 97 \<le> n \<and> n \<le> 102 then n - 87
         else if 65 \<le> n \<and> n \<le> 70 then n - 55
         else 0)"

definition fallback_embedding :: "'v text_lib \<Rightarrow> string \<Rightarrow> real list" where
  "fallback_embedding lib query =
     map (\<lambda>c. real (hex_digit c)) (take 16 (md5_hexdigest lib (py_lower query)))"

definition normalise :: "real list \<Rightarrow> real list" where
  "normalise v = map (\<lambda>x. x / (sqrt (sum_list (map (\<lambda>y. y * y) v)) + 1 / 10 ^ 8)) v"

definition bootstrap_queries :: "string \<Rightarrow> string list" where
  "bootstrap_queries query =
     [query, ''what is the performance'', ''show me data'', ''analyze results'',
      ''get insights'']"

text \<open>\<^verbatim>\<open>_get_query_embedding\<close>: any exception of the \<^verbatim>\<open>try\<close> block leads to the fallback.\<close>

definition get_query_embedding ::
    "'v text_lib \<Rightarrow> 'v cache_engine \<Rightarrow> string \<Rightarrow> real list \<times> 'v cache_engine" where
  "get_query_embedding lib ce query =
     (if \<not> is_vectorizer_fitted ce then
        (case tfidf_fit lib (vectorizer ce) (bootstrap_queries query) of
           (v, raised) \<Rightarrow>
             if raised then (fallback_embedding lib query, ce\<lparr>vectorizer := v\<rparr>)
             else
               (case tfidf_transform lib v query of
                  None \<Rightarrow>
                    (fallback_embedding lib query,
                     ce\<lparr>vectorizer := v, is_vectorizer_fitted := True\<rparr>)
                | Some emb \<Rightarrow>
                    (normalise emb, ce\<lparr>vectorizer := v, is_vectorizer_fitted := True\<rparr>)))
      else
        (case tfidf_transform lib (vectorizer ce) query of
           None \<Rightarrow> (fallback_embedding lib query, ce)
         | Some emb \<Rightarrow> (normalise emb, ce)))"

text \<open>
  \<^verbatim>\<open>_find_similar_queries\<close>: the loop collects the pairs at or above the threshold and
  skips an entry whose comparison raises; \<^verbatim>\<open>sorted(..., reverse=True)\<close> is stable.
\<close>

fun similarities ::
    "'v text_lib \<Rightarrow> real \<Rightarrow> real list \<Rightarrow> (string \<times> QueryEmbedding) list \<Rightarrow>
     (string \<times> real) list" where
  "similarities lib threshold query_embedding [] = []"
| "similarities lib threshold query_embedding ((cache_key, cached_embedding) # rest) =
     (case cosine_similarity lib query_embedding (embedding cached_embedding) of
        None \<Rightarrow> similarities lib threshold query_embedding rest
      | Some similarity \<Rightarrow>
          if similarity \<ge> threshold
          then (cache_key, similarity) # similarities lib threshold query_embedding rest
          else similarities lib threshold query_embedding rest)"

definition find_similar_queries ::
    "'v text_lib \<Rightarrow> 'v cache_engine \<Rightarrow> real list \<Rightarrow> (string \<times> real) list" where
  "find_similar_queries lib ce query_embedding =
     (if embeddings ce = [] then []
      else take 3 (sort_key (\<lambda>x. - snd x)
             (similarities lib (similarity_threshold ce) query_embedding (embeddings ce))))"

text \<open>\<^verbatim>\<open>get_cached_response\<close>; its loop over \<^verbatim>\<open>similar_queries\<close> is \<open>semantic_lookup\<close>.\<close>

definition touch :: "cache_entry \<Rightarrow> real \<Rightarrow> cache_entry" where
  "touch e time_now = e\<lparr>access_count := access_count e + 1, last_accessed := time_now\<rparr>"

fun semantic_lookup ::
    "'v cache_engine \<Rightarrow> (string \<times> real) list \<Rightarrow> real \<Rightarrow>
     response_dict option \<times> 'v cache_engine" where
  "semantic_lookup ce [] time_now = (None, ce)"
| "semantic_lookup ce ((similar_key, similarity) # rest) time_now =
     (case map_of (cache ce) similar_key of
        None \<Rightarrow> semantic_lookup ce rest time_now
      | Some e \<Rightarrow>
          (Some ((response e)(''cache_similarity'' \<mapsto> PyFloat similarity,
                              ''cache_type'' \<mapsto> PyStr ''semantic'')),
           ce\<lparr>cache := AList.update similar_key (touch e time_now) (cache ce)\<rparr>))"

definition get_cached_response ::
    "'v text_lib \<Rightarrow> 'v cache_engine \<Rightarrow> string \<Rightarrow> string \<Rightarrow> real \<Rightarrow>
     response_dict option \<times> 'v cache_engine" where
  "get_cached_response lib ce query context_hash time_now =
     (case get_query_embedding lib ce query of
        (query_embedding, ce1) \<Rightarrow>
          (let cache_key = md5_hexdigest lib (query @ context_hash)
           in case map_of (cache ce1) cache_key of
                Some e \<Rightarrow>
                  (Some (response e),
                   ce1\<lparr>cache := AList.update cache_key (touch e time_now) (cache ce1)\<rparr>)
              | None \<Rightarrow>
                  semantic_lookup ce1 (find_similar_queries lib ce1 query_embedding) time_now))"

text \<open>\<^verbatim>\<open>_evict_lru_entries\<close>\<close>

definition remove_entry :: "string \<times> cache_entry \<Rightarrow> 'v cache_engine \<Rightarrow> 'v cache_engine" where
  "remove_entry p ce =
     ce\<lparr>cache := AList.delete (fst p) (cache ce),
        embeddings := AList.delete (fst p) (embeddings ce)\<rparr>"

definition evict_lru_entries :: "'v cache_engine \<Rightarrow> 'v cache_engine" where
  "evict_lru_entries ce =
     (if cache ce = [] then ce
      else
        (let sorted_entries = sort_key (\<lambda>x. last_accessed (snd x)) (cache ce);
             num_to_remove = max 1 (length sorted_entries div 5)
         in fold remove_entry (take num_to_remove sorted_entries) ce))"

text \<open>
  \<^verbatim>\<open>cache_response\<close>; the three clock readings are those of the entry's
  \<^verbatim>\<open>'timestamp'\<close>, of its \<^verbatim>\<open>'last_accessed'\<close> and of the embedding.
\<close>

definition new_entry :: "response_dict \<Rightarrow> string \<Rightarrow> real \<Rightarrow> real \<Rightarrow> cache_entry" where
  "new_entry resp query t1 t2 =
     \<lparr>response = resp, stored_at = t1, access_count = 1, last_accessed = t2,
      query_sample = take 100 query\<rparr>"

definition cache_response ::
    "'v text_lib \<Rightarrow> 'v cache_engine \<Rightarrow> string \<Rightarrow> string \<Rightarrow> response_dict \<Rightarrow>
     real \<Rightarrow> real \<Rightarrow> real \<Rightarrow> 'v cache_engine" where
  "cache_response lib ce query context_hash resp t1 t2 t3 =
     (case get_query_embedding lib ce query of
        (query_embedding, ce1) \<Rightarrow>
          (let cache_key = md5_hexdigest lib (query @ context_hash);
               ce2 = (if int (length (cache ce1)) \<ge> cache_size ce1
                      then evict_lru_entries ce1 else ce1)
           in ce2\<lparr>cache := AList.update cache_key (new_entry resp query t1 t2) (cache ce2),
                  embeddings := AList.update cache_key
                    \<lparr>embedding = query_embedding, hash_key = cache_key, embedded_at = t3,
                     embedding_uses = 1,
                     quality_score =
                       (case resp ''confidence'' of None \<Rightarrow> PyFloat (1 / 2) | Some v \<Rightarrow> v)\<rparr>
                    (embeddings ce2)\<rparr>))"

text \<open>
  For concrete runs: library stand-ins in which the digest is the identity, the
  vectoriser never raises and every cosine similarity is a given constant; a full cache
  of five entries; and a full cache of ten entries.
\<close>

definition constant_similarity_lib :: "real \<Rightarrow> unit text_lib" where
  "constant_similarity_lib c =
     \<lparr>md5_hexdigest = (\<lambda>s. s), tfidf_fit = (\<lambda>v _. (v, False)),
      tfidf_transform = (\<lambda>_ _. Some [1, 0]), cosine_similarity = (\<lambda>_ _. Some c)\<rparr>"

definition stored_entry :: "string \<Rightarrow> real \<Rightarrow> cache_entry" where
  "stored_entry answer accessed =
     \<lparr>response = [''answer'' \<mapsto> PyStr answer], stored_at = 0, access_count = 1,
      last_accessed = accessed, query_sample = answer\<rparr>"

definition stored_embedding :: "string \<Rightarrow> QueryEmbedding" where
  "stored_embedding k =
     \<lparr>embedding = [1, 0], hash_key = k, embedded_at = 0, embedding_uses = 1,
      quality_score = PyFloat (1 / 2)\<rparr>"

definition full_cache :: "unit cache_engine" where
  "full_cache =
     \<lparr>cache_size = 5, similarity_threshold = 85 / 100,
      cache = [(''k1'', stored_entry ''a1'' 50), (''k2'', stored_entry ''a2'' 30),
               (''k3'', stored_entry ''a3'' 10), (''k4'', stored_entry ''a4'' 40),
               (''k5'', stored_entry ''a5'' 20)],
      embeddings = [(''k1'', stored_embedding ''k1''), (''k2'', stored_embedding ''k2''),
                    (''k3'', stored_embedding ''k3''), (''k4'', stored_embedding ''k4''),
                    (''k5'', stored_embedding ''k5'')],
      vectorizer = (), is_vectorizer_fitted = True\<rparr>"

definition ten_entry_cache :: "unit cache_engine" where
  "ten_entry_cache =
     \<lparr>cache_size = 10, similarity_threshold = 85 / 100,
      cache = [(''k0'', stored_entry ''a0'' 50), (''k1'', stored_entry ''a1'' 30),
               (''k2'', stored_entry ''a2'' 10), (''k3'', stored_entry ''a3'' 40),
               (''k4'', stored_entry ''a4'' 20), (''k5'', stored_entry ''a5'' 90),
               (''k6'', stored_entry ''a6'' 70), (''k7'', stored_entry ''a7'' 60),
               (''k8'', stored_entry ''a8'' 100), (''k9'', stored_entry ''a9'' 80)],
      embeddings = [(''k0'', stored_embedding ''k0''), (''k1'', stored_embedding ''k1''),
                    (''k2'', stored_embedding ''k2''), (''k3'', stored_embedding ''k3''),
                    (''k4'', stored_embedding ''k4''), (''k5'', stored_embedding ''k5''),
                    (''k6'', stored_embedding ''k6''), (''k7'', stored_embedding ''k7''),
                    (''k8'', stored_embedding ''k8''), (''k9'', stored_embedding ''k9'')],
      vectorizer = (), is_vectorizer_fitted = True\<rparr>"

text \<open>
  In every state the engine reaches, each key of \<^verbatim>\<open>embeddings\<close> is a key of
  \<^verbatim>\<open>cache\<close>, and the keys of a dictionary are distinct.
\<close>

definition cache_wf :: "'v cache_engine \<Rightarrow> bool" where
  "cache_wf ce =
     (distinct (map fst (cache ce)) \<and> distinct (map fst (embeddings ce)) \<and>
      fst ` set (embeddings ce) \<subseteq> fst ` set (cache ce))"

section \<open>The eviction pass\<close>

lemma unload_all_Nil [simp]: "unload_all [] h = h"
  by (simp add: unload_all_def)

lemma unload_all_Cons:
  "unload_all ys (h(a := (h a)\<lparr>status := ''unloaded''\<rparr>)) = unload_all ((n, a) # ys) h"
  by (auto simp: unload_all_def fun_eq_iff)

lemma status_unload_all:
  "status (unload_all ys h a) = (if a \<in> snd ` set ys then ''unloaded'' else status (h a))"
  by (simp add: unload_all_def)

lemma size_unload_all [simp]: "size_gb (unload_all ys h a) = size_gb (h a)"
  by (simp add: unload_all_def)

text \<open>Whatever the arithmetic, the loop unloads a prefix of the list it is given.\<close>

lemma unload_loop_prefix:
  "\<exists>k \<le> length xs.
     unload_loop fa cur tgt xs freed h = (unload_all (take k xs) h, map fst (take k xs))"
proof (induction xs arbitrary: freed h)
  case Nil
  show ?case by simp
next
  case (Cons p xs)
  obtain n a where p: "p = (n, a)" by (cases p)
  show ?case
  proof (cases "fsub fa cur freed \<le> tgt")
    case True
    then show ?thesis by (intro exI[of _ 0]) (simp add: p)
  next
    case False
    let ?h = "h(a := (h a)\<lparr>status := ''unloaded''\<rparr>)"
    from Cons.IH[of "fadd fa freed (size_gb (h a))" ?h]
    obtain k where k: "k \<le> length xs"
      "unload_loop fa cur tgt xs (fadd fa freed (size_gb (h a))) ?h
         = (unload_all (take k xs) ?h, map fst (take k xs))"
      by blast
    show ?thesis using False k
      by (intro exI[of _ "Suc k"]) (simp add: p unload_all_Cons)
  qed
qed

lemma models_to_unload_set:
  "set (models_to_unload m) = {p \<in> set (loaded_models m). is_loaded (heap m) p}"
  by (auto simp: models_to_unload_def)

lemma free_memory_prefix:
  "\<exists>k \<le> length (models_to_unload m).
     free_memory_for_model fa m required =
       (m\<lparr>heap := unload_all (take k (models_to_unload m)) (heap m)\<rparr>,
        map fst (take k (models_to_unload m)))"
proof (cases "get_current_memory_usage fa m \<le> fsub fa (max_memory_gb m) required")
  case True
  then show ?thesis
    by (intro exI[of _ 0]) (simp add: free_memory_for_model_def)
next
  case False
  let ?xs = "models_to_unload m"
  from unload_loop_prefix[of ?xs fa "get_current_memory_usage fa m"
         "fsub fa (max_memory_gb m) required" 0 "heap m"]
  obtain k where k: "k \<le> length ?xs"
    "unload_loop fa (get_current_memory_usage fa m) (fsub fa (max_memory_gb m) required)
       ?xs 0 (heap m) = (unload_all (take k ?xs) (heap m), map fst (take k ?xs))"
    by blast
  show ?thesis using False k
    by (intro exI[of _ k]) (simp add: free_memory_for_model_def)
qed

lemma eviction_pass_prefix:
  "\<exists>k \<le> length (models_to_unload m).
     eviction_pass fa m a =
       (m\<lparr>heap := unload_all (take k (models_to_unload m)) (heap m)\<rparr>,
        map fst (take k (models_to_unload m)))"
proof (cases "fadd fa (get_current_memory_usage fa m) (size_gb (heap m a)) > max_memory_gb m")
  case True
  then show ?thesis
    using free_memory_prefix[of m fa "size_gb (heap m a)"] by (simp add: eviction_pass_def)
next
  case False
  then show ?thesis by (intro exI[of _ 0]) (simp add: eviction_pass_def)
qed

lemma nth_of_sorted_keys:
  assumes s: "sorted (map f xs)" and i: "i < length xs" and j: "j < length xs"
    and lt: "f (xs ! i) < f (xs ! j)"
  shows "i < j"
proof (rule ccontr)
  assume "\<not> i < j"
  then have "j \<le> i" by simp
  then have "map f xs ! j \<le> map f xs ! i"
    using s i by (simp add: sorted_iff_nth_mono del: nth_map)
  then show False using lt i j by simp
qed

text \<open>An entry of \<^verbatim>\<open>loaded_models\<close> is among the first \<open>k\<close> to unload iff its name is.\<close>

lemma name_in_prefix:
  assumes dk: "distinct (map fst (loaded_models m))" and p: "p \<in> set (loaded_models m)"
  shows "(fst p \<in> set (map fst (take k (models_to_unload m))))
           = (p \<in> set (take k (models_to_unload m)))"
proof
  assume "fst p \<in> set (map fst (take k (models_to_unload m)))"
  then obtain q where q: "q \<in> set (take k (models_to_unload m))" "fst q = fst p" by auto
  then have "q \<in> set (models_to_unload m)" by (meson in_set_takeD)
  then have "q \<in> set (loaded_models m)" by (simp add: models_to_unload_set)
  then have "q = p" using p q(2) dk by (metis eq_key_imp_eq_value prod.collapse)
  then show "p \<in> set (take k (models_to_unload m))" using q(1) by simp
next
  assume "p \<in> set (take k (models_to_unload m))"
  then show "fst p \<in> set (map fst (take k (models_to_unload m)))" by simp
qed

lemma addr_in_prefix:
  assumes da: "distinct (map snd (loaded_models m))" and p: "p \<in> set (loaded_models m)"
  shows "(snd p \<in> snd ` set (take k (models_to_unload m)))
           = (p \<in> set (take k (models_to_unload m)))"
proof
  assume "snd p \<in> snd ` set (take k (models_to_unload m))"
  then obtain q where q: "q \<in> set (take k (models_to_unload m))" "snd q = snd p" by auto
  then have "q \<in> set (models_to_unload m)" by (meson in_set_takeD)
  then have "q \<in> set (loaded_models m)" by (simp add: models_to_unload_set)
  then have "q = p" using p q(2) da
    by (metis distinct_map inj_onD)
  then show "p \<in> set (take k (models_to_unload m))" using q(1) by simp
next
  assume "p \<in> set (take k (models_to_unload m))"
  then show "snd p \<in> snd ` set (take k (models_to_unload m))" by simp
qed

section \<open>The object graph of a manager\<close>

lemma distinct_snd_update:
  "distinct (map fst lm) \<Longrightarrow> distinct (map snd lm) \<Longrightarrow>
   \<forall>p \<in> set lm. snd p = a \<longrightarrow> fst p = n \<Longrightarrow>
   distinct (map snd (AList.update n a lm))"
proof (induction lm)
  case Nil
  then show ?case by simp
next
  case (Cons p lm)
  show ?case
  proof (cases "fst p = n")
    case True
    then show ?thesis using Cons.prems by (cases p) force
  next
    case False
    have "snd p \<notin> snd ` set (AList.update n a lm)"
    proof
      assume "snd p \<in> snd ` set (AList.update n a lm)"
      then obtain q where q: "q \<in> set (AList.update n a lm)" "snd q = snd p" by auto
      have "set (AList.update n a lm) \<subseteq> insert (n, a) (set lm)"
        by (induction lm) auto
      then have "q = (n, a) \<or> q \<in> set lm" using q(1) by auto
      then show False
      proof
        assume "q = (n, a)"
        then have "snd p = a" using q(2) by simp
        then show False using Cons.prems(3) False by simp
      next
        assume "q \<in> set lm"
        then have "snd p \<in> snd ` set lm" using q(2) by (metis imageI)
        then show False using Cons.prems(2) by simp
      qed
    qed
    then show ?thesis using False Cons by (cases p) auto
  qed
qed

lemma set_alist_update_subset: "set (AList.update n a lm) \<subseteq> insert (n, a) (set lm)"
  by (induction lm) auto

lemma spec_addr_in_loaded:
  assumes wf: "wf_manager m" and sp: "map_of (model_specs m) n = Some a"
    and p: "p \<in> set (loaded_models m)" "snd p = a"
  shows "map_of (loaded_models m) n = Some a"
proof -
  have "(n, a) \<in> set (model_specs m)" using sp by (rule map_of_SomeD)
  then have "fst p = n" using wf p unfolding wf_manager_def by force
  then have "(n, a) \<in> set (loaded_models m)" using p by (cases p) simp
  then show ?thesis using wf unfolding wf_manager_def by simp
qed

lemma wf_manager_store:
  assumes wf: "wf_manager m" and sp: "map_of (model_specs m) n = Some a"
  shows "wf_manager (m\<lparr>loaded_models := AList.update n a (loaded_models m)\<rparr>)"
proof -
  have in_sp: "(n, a) \<in> set (model_specs m)" using sp by (rule map_of_SomeD)
  have w: "distinct (map fst (loaded_models m))" "distinct (map snd (loaded_models m))"
    "distinct (map fst (model_specs m))" "distinct (map snd (model_specs m))"
    "\<forall>p \<in> set (loaded_models m). \<forall>q \<in> set (model_specs m). snd p = snd q \<longrightarrow> fst p = fst q"
    using wf unfolding wf_manager_def by simp_all
  have 1: "distinct (map fst (AList.update n a (loaded_models m)))"
    using w(1) by (rule distinct_update)
  have "\<forall>p \<in> set (loaded_models m). snd p = a \<longrightarrow> fst p = n"
    using w(5) in_sp by force
  then have 2: "distinct (map snd (AList.update n a (loaded_models m)))"
    by (rule distinct_snd_update[OF w(1,2)])
  have 3: "\<forall>p \<in> set (AList.update n a (loaded_models m)).
             \<forall>q \<in> set (model_specs m). snd p = snd q \<longrightarrow> fst p = fst q"
  proof (intro ballI impI)
    fix p q assume p: "p \<in> set (AList.update n a (loaded_models m))"
      and q: "q \<in> set (model_specs m)" and e: "snd p = snd q"
    from p set_alist_update_subset[of n a "loaded_models m"]
    have "p = (n, a) \<or> p \<in> set (loaded_models m)" by auto
    then show "fst p = fst q"
    proof
      assume pe: "p = (n, a)"
      then have "snd q = a" using e by simp
      then have "fst q = n" using q in_sp w(4)
        by (metis distinct_map inj_on_def snd_conv fst_conv)
      then show ?thesis using pe by simp
    next
      assume "p \<in> set (loaded_models m)"
      then show ?thesis using w(5) q e by blast
    qed
  qed
  show ?thesis unfolding wf_manager_def using 1 2 3 w(3,4) by simp
qed

lemma wf_manager_cong:
  "loaded_models m' = loaded_models m \<Longrightarrow> model_specs m' = model_specs m \<Longrightarrow>
   wf_manager m' = wf_manager m"
  by (simp add: wf_manager_def)

lemma load_state_wf:
  assumes "distinct (map fst (loaded_models m))" "distinct (map snd (loaded_models m))"
    "\<forall>p \<in> set (loaded_models m). 0 < snd p \<and> snd p < fresh" "0 < fresh"
  shows "distinct (map fst (loaded_models (load_state m es fresh))) \<and>
         distinct (map snd (loaded_models (load_state m es fresh))) \<and>
         (\<forall>p \<in> set (loaded_models (load_state m es fresh)). 0 < snd p) \<and>
         model_specs (load_state m es fresh) = model_specs m \<and>
         max_memory_gb (load_state m es fresh) = max_memory_gb m"
  using assms
proof (induction m es fresh rule: load_state.induct)
  case (1 m fresh)
  then show ?case by auto
next
  case (2 m n d rest fresh)
  let ?m = "m\<lparr>heap := (heap m)(fresh := d),
            loaded_models := AList.update n fresh (loaded_models m)\<rparr>"
  have 1: "distinct (map fst (loaded_models ?m))"
    using "2.prems"(1) by (simp add: distinct_update)
  have "\<forall>p \<in> set (loaded_models m). snd p = fresh \<longrightarrow> fst p = n"
    using "2.prems"(3) by auto
  then have 2: "distinct (map snd (loaded_models ?m))"
    using distinct_snd_update[OF "2.prems"(1,2)] by simp
  have 3: "\<forall>p \<in> set (loaded_models ?m). 0 < snd p \<and> snd p < Suc fresh"
    using "2.prems"(3,4) set_alist_update_subset[of n fresh "loaded_models m"] by fastforce
  show ?case using "2.IH"[OF 1 2 3] by simp
qed

lemma wf_manager_init: "wf_manager (init_manager max_memory_arg detected entries)"
proof -
  let ?m0 = "\<lparr>max_memory_gb =
          (case max_memory_arg of None \<Rightarrow> detected
           | Some v \<Rightarrow> if v = 0 then detected else v),
        heap = (\<lambda>_. tinyllama_spec), loaded_models = [],
        model_specs = [(''tinyllama'', 0)]\<rparr>"
  have "distinct (map fst (loaded_models (load_state ?m0 entries 1))) \<and>
         distinct (map snd (loaded_models (load_state ?m0 entries 1))) \<and>
         (\<forall>p \<in> set (loaded_models (load_state ?m0 entries 1)). 0 < snd p) \<and>
         model_specs (load_state ?m0 entries 1) = model_specs ?m0 \<and>
         max_memory_gb (load_state ?m0 entries 1) = max_memory_gb ?m0"
    by (rule load_state_wf) simp_all
  then show ?thesis unfolding wf_manager_def init_manager_def by auto
qed

lemma smart_model_load_fast:
  "already_loaded m n \<Longrightarrow>
   smart_model_load fa m n env =
     (Returned True, m\<lparr>heap := (heap m)(the (map_of (loaded_models m) n) :=
        (heap m (the (map_of (loaded_models m) n)))
           \<lparr>last_used := clock0 env,
            usage_count := usage_count (heap m (the (map_of (loaded_models m) n))) + 1\<rparr>)\<rparr>)"
  by (simp add: smart_model_load_def Let_def)

lemma smart_model_load_unknown:
  "\<not> already_loaded m n \<Longrightarrow> map_of (model_specs m) n = None \<Longrightarrow>
   smart_model_load fa m n env = (Returned False, m)"
  by (simp add: smart_model_load_def)

lemma smart_model_load_slow:
  "\<not> already_loaded m n \<Longrightarrow> map_of (model_specs m) n = Some a \<Longrightarrow>
   smart_model_load fa m n env =
     (case probe env of
        ProbeReturns \<Rightarrow>
          (Returned True, (fst (eviction_pass fa m a))
             \<lparr>heap := (heap (fst (eviction_pass fa m a)))(a := (heap (fst (eviction_pass fa m a)) a)
                 \<lparr>last_used := clock2 env, load_time := fsub fa (clock1 env) (clock0 env),
                  usage_count := usage_count (heap (fst (eviction_pass fa m a)) a) + 1,
                  status := ''loaded''\<rparr>),
              loaded_models := AList.update n a (loaded_models (fst (eviction_pass fa m a)))\<rparr>)
      | ProbeRaises \<Rightarrow>
          (Returned False, (fst (eviction_pass fa m a))
             \<lparr>heap := (heap (fst (eviction_pass fa m a)))(a := (heap (fst (eviction_pass fa m a)) a)
                 \<lparr>status := ''unloaded''\<rparr>)\<rparr>)
      | ProbeCancelled \<Rightarrow>
          (Raised, (fst (eviction_pass fa m a))
             \<lparr>heap := (heap (fst (eviction_pass fa m a)))(a := (heap (fst (eviction_pass fa m a)) a)
                 \<lparr>status := ''loading''\<rparr>)\<rparr>))"
  by (simp add: smart_model_load_def Let_def eviction_pass_def split: probe_result.splits)

lemma eviction_pass_frame:
  "loaded_models (fst (eviction_pass fa m a)) = loaded_models m"
  "model_specs (fst (eviction_pass fa m a)) = model_specs m"
  "max_memory_gb (fst (eviction_pass fa m a)) = max_memory_gb m"
  using eviction_pass_prefix[of m fa a] by auto

lemma smart_model_load_frame:
  "model_specs (snd (smart_model_load fa m n env)) = model_specs m"
  "max_memory_gb (snd (smart_model_load fa m n env)) = max_memory_gb m"
proof -
  have "model_specs (snd (smart_model_load fa m n env)) = model_specs m \<and>
        max_memory_gb (snd (smart_model_load fa m n env)) = max_memory_gb m"
  proof (cases "already_loaded m n")
    case True
    then show ?thesis by (simp add: smart_model_load_fast)
  next
    case nl: False
    show ?thesis
    proof (cases "map_of (model_specs m) n")
      case None
      then show ?thesis using nl by (simp add: smart_model_load_unknown)
    next
      case (Some a)
      show ?thesis
        by (cases "probe env")
           (simp_all add: smart_model_load_slow[OF nl Some] eviction_pass_frame)
    qed
  qed
  then show "model_specs (snd (smart_model_load fa m n env)) = model_specs m"
    "max_memory_gb (snd (smart_model_load fa m n env)) = max_memory_gb m"
    by simp_all
qed

lemma smart_model_load_loaded_models:
  "loaded_models (snd (smart_model_load fa m n env)) = loaded_models m \<or>
   (\<exists>a. map_of (model_specs m) n = Some a \<and>
        loaded_models (snd (smart_model_load fa m n env)) = AList.update n a (loaded_models m))"
proof (cases "already_loaded m n")
  case True
  then show ?thesis by (simp add: smart_model_load_fast)
next
  case nl: False
  show ?thesis
  proof (cases "map_of (model_specs m) n")
    case None
    then show ?thesis using nl by (simp add: smart_model_load_unknown)
  next
    case (Some a)
    show ?thesis using Some
      by (cases "probe env")
         (simp_all add: smart_model_load_slow[OF nl Some] eviction_pass_frame)
  qed
qed

lemma smart_model_load_wf:
  assumes wf: "wf_manager m"
  shows "wf_manager (snd (smart_model_load fa m n env))"
proof -
  from smart_model_load_loaded_models[of fa m n env]
  show ?thesis
  proof
    assume "loaded_models (snd (smart_model_load fa m n env)) = loaded_models m"
    then show ?thesis using wf wf_manager_cong smart_model_load_frame(1) by blast
  next
    assume "\<exists>a. map_of (model_specs m) n = Some a \<and>
        loaded_models (snd (smart_model_load fa m n env)) = AList.update n a (loaded_models m)"
    then obtain a where a: "map_of (model_specs m) n = Some a"
      "loaded_models (snd (smart_model_load fa m n env)) = AList.update n a (loaded_models m)"
      by blast
    have "wf_manager (snd (smart_model_load fa m n env)) =
          wf_manager (m\<lparr>loaded_models := AList.update n a (loaded_models m)\<rparr>)"
      by (rule wf_manager_cong) (simp_all add: a(2) smart_model_load_frame(1))
    then show ?thesis using wf_manager_store[OF wf a(1)] by simp
  qed
qed

lemma run_loads_wf: "wf_manager m \<Longrightarrow> wf_manager (run_loads fa m calls)"
  by (induction calls arbitrary: m) (auto simp: smart_model_load_wf)

section \<open>Evaluating binary64 arithmetic\<close>

lemma binade_numeral:
  "binade (numeral k) x =
     (if x < 1 then binade (pred_numeral k) (2 * x) - 1
      else if 2 \<le> x then binade (pred_numeral k) (x / 2) + 1
      else 0)"
  by (simp add: numeral_eq_Suc)

lemmas double_simps = round_double_def ulp_def round_to_even_def binade_numeral
  double_arith_def py_sum_def Let_def

lemmas mgr_simps = init_manager_def tinyllama_spec_def model_A_def model_B_def model_C_def
  model_D_def probe_ok_def probe_fails_def probe_cancelled_def smart_model_load_def
  already_loaded_def get_current_memory_usage_def loaded_sizes_def is_loaded_def
  free_memory_for_model_def models_to_unload_def unload_key_def wf_manager_def
  eviction_pass_def exact_usage_def double_simps

lemma double_literals:
  "round_double (6 / 10) = 5404319552844595 / 9007199254740992"
  "round_double (11 / 10) = 2476979795053773 / 2251799813685248"
  "round_double (17 / 10) = 7656119366529843 / 4503599627370496"
  "round_double (12 / 10) = 5404319552844595 / 4503599627370496"
  by (simp_all add: double_simps)

section \<open>The memory check without rounding\<close>

text \<open>
  How \<^verbatim>\<open>smart_model_load\<close> would behave if \<^verbatim>\<open>+\<close>, \<^verbatim>\<open>-\<close> and \<^verbatim>\<open>sum\<close> did not round:
  the test \<^verbatim>\<open>current_memory + required_memory > self.max_memory_gb\<close> that starts the
  eviction pass and the tests \<^verbatim>\<open>current_usage - freed_memory <= target_usage\<close> that stop
  it then say the same thing.
\<close>

lemma exact_arith_simps [simp]:
  "fadd exact_arith = (+)" "fsub exact_arith = (-)" "fsum exact_arith = sum_list"
  by (simp_all add: exact_arith_def)

lemma usage_exact:
  "get_current_memory_usage exact_arith m = heap_usage (heap m) (loaded_models m)"
  by (simp add: get_current_memory_usage_def heap_usage_def)

lemma sizes_unload_step [simp]:
  "sizes (h(a := (h a)\<lparr>status := s\<rparr>)) ys = sizes h ys"
  by (induction ys) (auto simp: sizes_def)

lemma unload_loop_char:
  "\<exists>k \<le> length xs.
     unload_loop exact_arith cur tgt xs freed h = (unload_all (take k xs) h, map fst (take k xs)) \<and>
     (k = length xs \<or> cur - (freed + sizes h (take k xs)) \<le> tgt) \<and>
     (\<forall>j < k. \<not> cur - (freed + sizes h (take j xs)) \<le> tgt)"
proof (induction xs arbitrary: freed h)
  case Nil
  show ?case by (simp add: sizes_def)
next
  case (Cons p xs)
  obtain n a where p: "p = (n, a)" by (cases p)
  show ?case
  proof (cases "cur - freed \<le> tgt")
    case True
    then show ?thesis
      by (intro exI[of _ 0]) (simp add: p sizes_def)
  next
    case False
    let ?h = "h(a := (h a)\<lparr>status := ''unloaded''\<rparr>)"
    from Cons.IH[of "freed + size_gb (h a)" ?h]
    obtain k where k: "k \<le> length xs"
      "unload_loop exact_arith cur tgt xs (freed + size_gb (h a)) ?h = (unload_all (take k xs) ?h, map fst (take k xs))"
      "k = length xs \<or> cur - (freed + size_gb (h a) + sizes ?h (take k xs)) \<le> tgt"
      "\<forall>j < k. \<not> cur - (freed + size_gb (h a) + sizes ?h (take j xs)) \<le> tgt"
      by blast
    have s: "\<And>j. sizes h (take (Suc j) (p # xs)) = size_gb (h a) + sizes h (take j xs)"
      by (simp add: sizes_def p)
    have "\<forall>j < Suc k. \<not> cur - (freed + sizes h (take j (p # xs))) \<le> tgt"
    proof (intro allI impI)
      fix j assume "j < Suc k"
      show "\<not> cur - (freed + sizes h (take j (p # xs))) \<le> tgt"
      proof (cases j)
        case 0
        then show ?thesis using False by (simp add: sizes_def)
      next
        case (Suc j')
        then have "j' < k" using \<open>j < Suc k\<close> by simp
        then show ?thesis using k(4) Suc s by (simp add: add.assoc)
      qed
    qed
    then show ?thesis using False k(1,2,3) s
      by (intro exI[of _ "Suc k"]) (simp add: p unload_all_Cons add.assoc)
  qed
qed

lemma heap_usage_Cons:
  "heap_usage h (p # lm) = (if is_loaded h p then size_gb (h (snd p)) else 0) + heap_usage h lm"
  by (simp add: heap_usage_def loaded_sizes_def)

lemma heap_usage_Nil [simp]: "heap_usage h [] = 0"
  by (simp add: heap_usage_def loaded_sizes_def)

lemma heap_usage_cong:
  "(\<And>p. p \<in> set lm \<Longrightarrow> status (h' (snd p)) = status (h (snd p)) \<and> size_gb (h' (snd p)) = size_gb (h (snd p)))
   \<Longrightarrow> heap_usage h' lm = heap_usage h lm"
  by (induction lm) (auto simp: heap_usage_Cons is_loaded_def)

lemma heap_usage_upd_other:
  "a \<notin> snd ` set lm \<Longrightarrow> heap_usage (h(a := x)) lm = heap_usage h lm"
  by (rule heap_usage_cong) force

lemma heap_usage_upd:
  "distinct (map snd lm) \<Longrightarrow> a \<in> snd ` set lm \<Longrightarrow>
   heap_usage (h(a := x)) lm =
     heap_usage h lm - (if status (h a) = ''loaded'' then size_gb (h a) else 0)
                     + (if status x = ''loaded'' then size_gb x else 0)"
proof (induction lm)
  case Nil
  then show ?case by simp
next
  case (Cons p lm)
  show ?case
  proof (cases "snd p = a")
    case True
    then have "a \<notin> snd ` set lm" using Cons.prems(1) by auto
    then have 1: "heap_usage (h(a := x)) lm = heap_usage h lm"
      by (rule heap_usage_upd_other)
    have 2: "is_loaded (h(a := x)) p = (status x = ''loaded'')"
      "is_loaded h p = (status (h a) = ''loaded'')"
      "(h(a := x)) (snd p) = x"
      using True by (simp_all add: is_loaded_def)
    show ?thesis unfolding heap_usage_Cons 1 2 using True by simp
  next
    case False
    then have "a \<in> snd ` set lm" using Cons.prems(2) by auto
    then have 1: "heap_usage (h(a := x)) lm =
        heap_usage h lm - (if status (h a) = ''loaded'' then size_gb (h a) else 0)
                     + (if status x = ''loaded'' then size_gb x else 0)"
      using Cons.prems(1) by (intro Cons.IH) simp_all
    have 2: "is_loaded (h(a := x)) p = is_loaded h p" "(h(a := x)) (snd p) = h (snd p)"
      using False by (simp_all add: is_loaded_def)
    show ?thesis unfolding heap_usage_Cons 1 2 by simp
  qed
qed

lemma unload_all_snoc:
  "unload_all (ys @ [(n, a)]) h = (unload_all ys h)(a := (unload_all ys h a)\<lparr>status := ''unloaded''\<rparr>)"
  by (auto simp: unload_all_def fun_eq_iff)

lemma heap_usage_unload_all:
  "distinct (map snd lm) \<Longrightarrow> distinct (map snd ys) \<Longrightarrow> set ys \<subseteq> set lm \<Longrightarrow>
   \<forall>p \<in> set ys. is_loaded h p \<Longrightarrow>
   heap_usage (unload_all ys h) lm = heap_usage h lm - sizes h ys"
proof (induction ys rule: rev_induct)
  case Nil
  then show ?case by (simp add: sizes_def)
next
  case (snoc p ys)
  obtain n a where p: "p = (n, a)" by (cases p)
  have a_in: "a \<in> snd ` set lm" using snoc.prems(3) p by force
  have a_notin: "a \<notin> snd ` set ys" using snoc.prems(2) p by auto
  have st: "status (unload_all ys h a) = ''loaded''"
    using a_notin snoc.prems(4) p by (simp add: status_unload_all is_loaded_def)
  have IH: "heap_usage (unload_all ys h) lm = heap_usage h lm - sizes h ys"
    using snoc by auto
  have "heap_usage (unload_all (ys @ [p]) h) lm
          = heap_usage (unload_all ys h) lm - size_gb (h a)"
    unfolding p unload_all_snoc
    using heap_usage_upd[OF snoc.prems(1) a_in, of "unload_all ys h"
            "(unload_all ys h a)\<lparr>status := ''unloaded''\<rparr>"] st
    by simp
  then show ?case using IH by (simp add: p sizes_def)
qed

lemma heap_usage_none_loaded:
  "\<forall>p \<in> set lm. \<not> is_loaded h p \<Longrightarrow> heap_usage h lm = 0"
  by (induction lm) (auto simp: heap_usage_Cons)

lemma models_to_unload_distinct:
  "distinct (map snd (loaded_models m)) \<Longrightarrow> distinct (map snd (models_to_unload m))"
  by (auto simp: models_to_unload_def distinct_map intro: inj_on_subset)

text \<open>What the eviction pass leaves behind.\<close>

lemma free_memory_char:
  assumes d: "distinct (map snd (loaded_models m))"
  shows "\<exists>k \<le> length (models_to_unload m).
     free_memory_for_model exact_arith m required =
       (m\<lparr>heap := unload_all (take k (models_to_unload m)) (heap m)\<rparr>,
        map fst (take k (models_to_unload m))) \<and>
     get_current_memory_usage exact_arith (fst (free_memory_for_model exact_arith m required)) =
       get_current_memory_usage exact_arith m - sizes (heap m) (take k (models_to_unload m)) \<and>
     (k = length (models_to_unload m) \<or>
      get_current_memory_usage exact_arith (fst (free_memory_for_model exact_arith m required)) \<le> max_memory_gb m - required)"
proof (cases "get_current_memory_usage exact_arith m \<le> max_memory_gb m - required")
  case True
  then show ?thesis
    by (intro exI[of _ 0]) (simp add: free_memory_for_model_def sizes_def)
next
  case False
  let ?xs = "models_to_unload m"
  from unload_loop_char[of ?xs "get_current_memory_usage exact_arith m" "max_memory_gb m - required" 0 "heap m"]
  obtain k where k: "k \<le> length ?xs"
    "unload_loop exact_arith (get_current_memory_usage exact_arith m) (max_memory_gb m - required) ?xs 0 (heap m)
       = (unload_all (take k ?xs) (heap m), map fst (take k ?xs))"
    "k = length ?xs \<or> get_current_memory_usage exact_arith m - (0 + sizes (heap m) (take k ?xs)) \<le> max_memory_gb m - required"
    by blast
  have eq: "free_memory_for_model exact_arith m required =
       (m\<lparr>heap := unload_all (take k ?xs) (heap m)\<rparr>, map fst (take k ?xs))"
    using False k(2) by (simp add: free_memory_for_model_def)
  have dk: "distinct (map snd (take k ?xs))"
    using models_to_unload_distinct[OF d] by (simp add: take_map[symmetric] distinct_take)
  have sub: "set (take k ?xs) \<subseteq> set (loaded_models m)"
    using set_take_subset[of k ?xs] models_to_unload_set[of m] by blast
  have ld: "\<forall>p \<in> set (take k ?xs). is_loaded (heap m) p"
    using set_take_subset[of k ?xs] models_to_unload_set[of m] by blast
  have us: "get_current_memory_usage exact_arith (fst (free_memory_for_model exact_arith m required)) =
       get_current_memory_usage exact_arith m - sizes (heap m) (take k ?xs)"
    using heap_usage_unload_all[OF d dk sub ld] by (simp add: eq usage_exact)
  show ?thesis using k(1) eq us k(3) by (intro exI[of _ k]) simp
qed

lemma heap_usage_alist_update:
  "heap_usage h (AList.update n a lm) =
     heap_usage h lm
       - (case map_of lm n of None \<Rightarrow> 0
          | Some b \<Rightarrow> if status (h b) = ''loaded'' then size_gb (h b) else 0)
       + (if status (h a) = ''loaded'' then size_gb (h a) else 0)"
  by (induction lm) (auto simp: heap_usage_Cons is_loaded_def)

lemma free_memory_headroom:
  assumes d: "distinct (map snd (loaded_models m))"
    and fit: "required \<le> max_memory_gb m"
  shows "get_current_memory_usage exact_arith (fst (free_memory_for_model exact_arith m required)) + required
           \<le> max_memory_gb m"
proof -
  let ?xs = "models_to_unload m"
  let ?m' = "fst (free_memory_for_model exact_arith m required)"
  from free_memory_char[OF d, of required]
  obtain k where k: "k \<le> length ?xs"
    "free_memory_for_model exact_arith m required =
       (m\<lparr>heap := unload_all (take k ?xs) (heap m)\<rparr>, map fst (take k ?xs))"
    "k = length ?xs \<or> get_current_memory_usage exact_arith ?m' \<le> max_memory_gb m - required"
    by blast
  show ?thesis
  proof (cases "k = length ?xs")
    case True
    have "\<forall>p \<in> set (loaded_models m). \<not> is_loaded (unload_all ?xs (heap m)) p"
      using models_to_unload_set[of m] by (auto simp: is_loaded_def status_unload_all)
    then have "heap_usage (unload_all ?xs (heap m)) (loaded_models m) = 0"
      by (rule heap_usage_none_loaded)
    then have "get_current_memory_usage exact_arith ?m' = 0"
      using k(2) True by (simp add: usage_exact)
    then show ?thesis using fit by simp
  next
    case False
    then show ?thesis using k(3) by simp
  qed
qed

lemma usage_after_store:
  assumes wf: "wf_manager m" and sp: "map_of (model_specs m) n = Some a"
    and nl: "\<not> already_loaded m n"
    and lm: "lm = loaded_models m"
    and st: "\<And>b. status (h1 b) = ''loaded'' \<Longrightarrow> status (heap m b) = ''loaded''"
  shows "heap_usage (h1(a := x)) (AList.update n a lm) =
           heap_usage h1 lm + (if status x = ''loaded'' then size_gb x else 0)"
    and "heap_usage (h1(a := x)) lm =
           heap_usage h1 lm +
             (if a \<in> snd ` set lm \<and> status x = ''loaded'' then size_gb x else 0)"
proof -
  let ?h = "h1(a := x)"
  let ?c = "if status x = ''loaded'' then size_gb x else 0"
  have d: "distinct (map snd lm)" using wf lm unfolding wf_manager_def by simp
  have up: "heap_usage ?h (AList.update n a lm) =
     heap_usage ?h lm
       - (case map_of lm n of None \<Rightarrow> 0
          | Some b \<Rightarrow> if status (?h b) = ''loaded'' then size_gb (?h b) else 0)
       + (if status (?h a) = ''loaded'' then size_gb (?h a) else 0)"
    by (rule heap_usage_alist_update)
  have ha: "?h a = x" by simp
  show "heap_usage ?h (AList.update n a lm) = heap_usage h1 lm + ?c"
   and "heap_usage ?h lm = heap_usage h1 lm +
             (if a \<in> snd ` set lm \<and> status x = ''loaded'' then size_gb x else 0)"
  proof (atomize (full), cases "a \<in> snd ` set lm")
    case True
    then obtain p where "p \<in> set (loaded_models m)" "snd p = a" using lm by auto
    then have mo: "map_of lm n = Some a" using spec_addr_in_loaded[OF wf sp] lm by simp
    then have "status (heap m a) \<noteq> ''loaded''" using nl lm by (simp add: already_loaded_def)
    then have n1: "status (h1 a) \<noteq> ''loaded''" using st by blast
    have "heap_usage ?h lm = heap_usage h1 lm
            - (if status (h1 a) = ''loaded'' then size_gb (h1 a) else 0) + ?c"
      by (rule heap_usage_upd[OF d True])
    then have 1: "heap_usage ?h lm = heap_usage h1 lm + ?c" using n1 by simp
    show "heap_usage ?h (AList.update n a lm) = heap_usage h1 lm + ?c \<and>
        heap_usage ?h lm = heap_usage h1 lm +
             (if a \<in> snd ` set lm \<and> status x = ''loaded'' then size_gb x else 0)"
      unfolding up 1 mo ha using True by simp
  next
    case False
    then have 1: "heap_usage ?h lm = heap_usage h1 lm" by (rule heap_usage_upd_other)
    have 2: "(case map_of lm n of None \<Rightarrow> 0
          | Some b \<Rightarrow> if status (?h b) = ''loaded'' then size_gb (?h b) else 0) = 0"
    proof (cases "map_of lm n")
      case None
      then show ?thesis by simp
    next
      case (Some b)
      then have "b \<in> snd ` set lm" by (metis map_of_SomeD imageI snd_conv)
      then have ne: "b \<noteq> a" using False by auto
      have "status (heap m b) \<noteq> ''loaded''"
        using nl Some lm by (simp add: already_loaded_def)
      then have "status (h1 b) \<noteq> ''loaded''" using st by blast
      then show ?thesis using Some ne by simp
    qed
    show "heap_usage ?h (AList.update n a lm) = heap_usage h1 lm + ?c \<and>
        heap_usage ?h lm = heap_usage h1 lm +
             (if a \<in> snd ` set lm \<and> status x = ''loaded'' then size_gb x else 0)"
      unfolding up 1 2 ha using False by simp
  qed
qed

lemma eviction_pass_heap:
  "size_gb (heap (fst (eviction_pass fa m a)) b) = size_gb (heap m b)"
  "status (heap (fst (eviction_pass fa m a)) b) = ''loaded'' \<Longrightarrow> status (heap m b) = ''loaded''"
proof -
  from eviction_pass_prefix[of m fa a]
  obtain k where k: "eviction_pass fa m a =
       (m\<lparr>heap := unload_all (take k (models_to_unload m)) (heap m)\<rparr>,
        map fst (take k (models_to_unload m)))"
    by blast
  show "size_gb (heap (fst (eviction_pass fa m a)) b) = size_gb (heap m b)"
    unfolding k by simp
  assume "status (heap (fst (eviction_pass fa m a)) b) = ''loaded''"
  then show "status (heap m b) = ''loaded''"
    unfolding k by (simp add: status_unload_all split: if_splits)
qed

lemma eviction_pass_headroom:
  assumes "distinct (map snd (loaded_models m))" "size_gb (heap m a) \<le> max_memory_gb m"
  shows "get_current_memory_usage exact_arith (fst (eviction_pass exact_arith m a))
           + size_gb (heap m a) \<le> max_memory_gb m"
  using free_memory_headroom[OF assms] by (simp add: eviction_pass_def)

lemma usage_after_load:
  assumes wf: "wf_manager m" and sp: "map_of (model_specs m) n = Some a"
    and nl: "\<not> already_loaded m n"
  shows "get_current_memory_usage exact_arith (snd (smart_model_load exact_arith m n env)) =
           get_current_memory_usage exact_arith (fst (eviction_pass exact_arith m a))
             + (if probe env = ProbeReturns then size_gb (heap m a) else 0)"
proof -
  let ?m1 = "fst (eviction_pass exact_arith m a)"
  note fr = eviction_pass_frame[of exact_arith m a]
  have st: "\<And>b. status (heap ?m1 b) = ''loaded'' \<Longrightarrow> status (heap m b) = ''loaded''"
    by (rule eviction_pass_heap(2))
  show ?thesis
  proof (cases "probe env")
    case ProbeReturns
    let ?x = "(heap ?m1 a)\<lparr>last_used := clock2 env, load_time := clock1 env - clock0 env,
             usage_count := usage_count (heap ?m1 a) + 1, status := ''loaded''\<rparr>"
    have "heap_usage ((heap ?m1)(a := ?x)) (AList.update n a (loaded_models m)) =
            heap_usage (heap ?m1) (loaded_models m) +
              (if status ?x = ''loaded'' then size_gb ?x else 0)"
      by (rule usage_after_store(1)[OF wf sp nl refl st])
    moreover have "status ?x = ''loaded''" "size_gb ?x = size_gb (heap m a)"
      by (simp_all add: eviction_pass_heap(1))
    ultimately have "heap_usage ((heap ?m1)(a := ?x)) (AList.update n a (loaded_models m)) =
            heap_usage (heap ?m1) (loaded_models m) + size_gb (heap m a)"
      by simp
    then show ?thesis
      using ProbeReturns by (simp add: smart_model_load_slow[OF nl sp] usage_exact fr)
  next
    case ProbeRaises
    let ?x = "(heap ?m1 a)\<lparr>status := ''unloaded''\<rparr>"
    have "heap_usage ((heap ?m1)(a := ?x)) (loaded_models m) =
            heap_usage (heap ?m1) (loaded_models m) +
              (if a \<in> snd ` set (loaded_models m) \<and> status ?x = ''loaded''
               then size_gb ?x else 0)"
      by (rule usage_after_store(2)[OF wf sp nl refl st])
    moreover have "status ?x \<noteq> ''loaded''" by simp
    ultimately have "heap_usage ((heap ?m1)(a := ?x)) (loaded_models m) =
            heap_usage (heap ?m1) (loaded_models m)"
      by simp
    then show ?thesis
      using ProbeRaises by (simp add: smart_model_load_slow[OF nl sp] usage_exact fr)
  next
    case ProbeCancelled
    let ?x = "(heap ?m1 a)\<lparr>status := ''loading''\<rparr>"
    have "heap_usage ((heap ?m1)(a := ?x)) (loaded_models m) =
            heap_usage (heap ?m1) (loaded_models m) +
              (if a \<in> snd ` set (loaded_models m) \<and> status ?x = ''loaded''
               then size_gb ?x else 0)"
      by (rule usage_after_store(2)[OF wf sp nl refl st])
    moreover have "status ?x \<noteq> ''loaded''" by simp
    ultimately have "heap_usage ((heap ?m1)(a := ?x)) (loaded_models m) =
            heap_usage (heap ?m1) (loaded_models m)"
      by simp
    then show ?thesis
      using ProbeCancelled by (simp add: smart_model_load_slow[OF nl sp] usage_exact fr)
  qed
qed

lemma usage_after_fast_path:
  assumes al: "already_loaded m n"
  shows "get_current_memory_usage exact_arith (snd (smart_model_load exact_arith m n env)) =
           get_current_memory_usage exact_arith m"
proof -
  let ?a = "the (map_of (loaded_models m) n)"
  let ?x = "(heap m ?a)\<lparr>last_used := clock0 env, usage_count := usage_count (heap m ?a) + 1\<rparr>"
  have "heap_usage ((heap m)(?a := ?x)) (loaded_models m) = heap_usage (heap m) (loaded_models m)"
    by (rule heap_usage_cong) simp
  then show ?thesis
    unfolding smart_model_load_fast[OF al] usage_exact by simp
qed

lemma smart_model_load_size:
  "size_gb (heap (snd (smart_model_load fa m n env)) b) = size_gb (heap m b)"
proof (cases "already_loaded m n")
  case True
  then show ?thesis by (simp add: smart_model_load_fast)
next
  case nl: False
  show ?thesis
  proof (cases "map_of (model_specs m) n")
    case None
    then show ?thesis using nl by (simp add: smart_model_load_unknown)
  next
    case (Some a)
    show ?thesis
      by (cases "probe env")
         (simp_all add: smart_model_load_slow[OF nl Some] eviction_pass_heap(1))
  qed
qed

lemma smart_model_load_budget_exact:
  assumes wf: "wf_manager m" and fit: "specs_fit m"
    and inv: "get_current_memory_usage exact_arith m \<le> max_memory_gb m"
  shows "get_current_memory_usage exact_arith (snd (smart_model_load exact_arith m n env))
           \<le> max_memory_gb m"
proof (cases "already_loaded m n")
  case True
  then show ?thesis using inv by (simp add: usage_after_fast_path)
next
  case nl: False
  show ?thesis
  proof (cases "map_of (model_specs m) n")
    case None
    then show ?thesis using nl inv by (simp add: smart_model_load_unknown)
  next
    case (Some a)
    then have "(n, a) \<in> set (model_specs m)" by (rule map_of_SomeD)
    then have sz: "0 \<le> size_gb (heap m a)" "size_gb (heap m a) \<le> max_memory_gb m"
      using fit unfolding specs_fit_def by force+
    have d: "distinct (map snd (loaded_models m))" using wf unfolding wf_manager_def by simp
    have hr: "get_current_memory_usage exact_arith (fst (eviction_pass exact_arith m a))
                + size_gb (heap m a) \<le> max_memory_gb m"
      by (rule eviction_pass_headroom[OF d sz(2)])
    show ?thesis using hr sz(1) by (simp add: usage_after_load[OF wf Some nl])
  qed
qed

lemma smart_model_load_specs_fit:
  "specs_fit m \<Longrightarrow> specs_fit (snd (smart_model_load fa m n env))"
  by (simp add: specs_fit_def smart_model_load_frame smart_model_load_size)

text \<open>
  With arithmetic that does not round and a catalogue whose models fit the budget, the
  memory check keeps the budget over every sequence of calls.
\<close>

lemma budget_kept_without_rounding:
  "wf_manager m \<Longrightarrow> specs_fit m \<Longrightarrow>
   get_current_memory_usage exact_arith m \<le> max_memory_gb m \<Longrightarrow>
   wf_manager (run_loads exact_arith m calls) \<and> specs_fit (run_loads exact_arith m calls) \<and>
   max_memory_gb (run_loads exact_arith m calls) = max_memory_gb m \<and>
   get_current_memory_usage exact_arith (run_loads exact_arith m calls) \<le> max_memory_gb m"
proof (induction calls arbitrary: m)
  case Nil
  then show ?case by simp
next
  case (Cons c calls)
  obtain n env where c: "c = (n, env)" by (cases c)
  let ?m = "snd (smart_model_load exact_arith m n env)"
  have "wf_manager ?m" using Cons.prems(1) by (rule smart_model_load_wf)
  moreover have "specs_fit ?m" using Cons.prems(2) by (rule smart_model_load_specs_fit)
  moreover have "get_current_memory_usage exact_arith ?m \<le> max_memory_gb ?m"
    using smart_model_load_budget_exact[OF Cons.prems] by (simp add: smart_model_load_frame)
  ultimately show ?case using Cons.IH[of ?m] by (simp add: c smart_model_load_frame)
qed

section \<open>Memory budget\<close>

text \<open>
  C1. The budget invariant says that a sequence of \<^verbatim>\<open>smart_model_load\<close> calls that starts
  with the sizes of the loaded models adding up to at most \<^verbatim>\<open>max_memory_gb\<close> keeps it
  so after every call. The code breaks it in binary64 arithmetic. Take a manager made
  with \<^verbatim>\<open>max_memory_gb = 1.7\<close> whose state file restores one loaded model of
  \<^verbatim>\<open>size_gb = 1.1\<close>, and call \<^verbatim>\<open>smart_model_load('tinyllama')\<close> with a probe that
  returns. \<^verbatim>\<open>tinyllama\<close> (0.6) fits the budget by itself and the usage 1.1 is within the
  budget. The test \<^verbatim>\<open>current_memory + required_memory > self.max_memory_gb\<close> holds
  (\<^verbatim>\<open>1.1 + 0.6\<close> is \<^verbatim>\<open>1.7000000000000002\<close>), so \<^verbatim>\<open>_free_memory_for_model\<close> is called;
  its test \<^verbatim>\<open>current_usage <= target_usage\<close> holds as well (\<^verbatim>\<open>1.7 - 0.6\<close> is \<^verbatim>\<open>1.1\<close>),
  so it unloads nothing. The call returns \<^verbatim>\<open>True\<close> with both models loaded, and the sum
  of their sizes exceeds \<^verbatim>\<open>max_memory_gb\<close>, both as \<^verbatim>\<open>_get_current_memory_usage\<close>
  computes it and as the exact sum of the two binary64 sizes.
\<close>

theorem budget_exceeded_after_load:
  "size_gb (heap (init_manager (Some (round_double (17 / 10))) 0 [(''D'', model_D)]) 0)
     \<le> max_memory_gb (init_manager (Some (round_double (17 / 10))) 0 [(''D'', model_D)]) \<and>
   get_current_memory_usage double_arith
     (init_manager (Some (round_double (17 / 10))) 0 [(''D'', model_D)])
     \<le> max_memory_gb (init_manager (Some (round_double (17 / 10))) 0 [(''D'', model_D)]) \<and>
   exact_usage (init_manager (Some (round_double (17 / 10))) 0 [(''D'', model_D)])
     \<le> max_memory_gb (init_manager (Some (round_double (17 / 10))) 0 [(''D'', model_D)]) \<and>
   fadd double_arith
     (get_current_memory_usage double_arith
        (init_manager (Some (round_double (17 / 10))) 0 [(''D'', model_D)]))
     (size_gb (heap (init_manager (Some (round_double (17 / 10))) 0 [(''D'', model_D)]) 0))
     > max_memory_gb (init_manager (Some (round_double (17 / 10))) 0 [(''D'', model_D)]) \<and>
   get_current_memory_usage double_arith
     (init_manager (Some (round_double (17 / 10))) 0 [(''D'', model_D)])
     \<le> fsub double_arith
          (max_memory_gb (init_manager (Some (round_double (17 / 10))) 0 [(''D'', model_D)]))
          (size_gb (heap (init_manager (Some (round_double (17 / 10))) 0 [(''D'', model_D)]) 0)) \<and>
   snd (free_memory_for_model double_arith
          (init_manager (Some (round_double (17 / 10))) 0 [(''D'', model_D)])
          (size_gb (heap (init_manager (Some (round_double (17 / 10))) 0 [(''D'', model_D)]) 0)))
     = [] \<and>
   fst (smart_model_load double_arith
          (init_manager (Some (round_double (17 / 10))) 0 [(''D'', model_D)])
          ''tinyllama'' probe_ok) = Returned True \<and>
   already_loaded
     (run_loads double_arith
        (init_manager (Some (round_double (17 / 10))) 0 [(''D'', model_D)])
        [(''tinyllama'', probe_ok)]) ''D'' \<and>
   already_loaded
     (run_loads double_arith
        (init_manager (Some (round_double (17 / 10))) 0 [(''D'', model_D)])
        [(''tinyllama'', probe_ok)]) ''tinyllama'' \<and>
   get_current_memory_usage double_arith
     (run_loads double_arith
        (init_manager (Some (round_double (17 / 10))) 0 [(''D'', model_D)])
        [(''tinyllama'', probe_ok)])
     > max_memory_gb
         (run_loads double_arith
            (init_manager (Some (round_double (17 / 10))) 0 [(''D'', model_D)])
            [(''tinyllama'', probe_ok)]) \<and>
   exact_usage
     (run_loads double_arith
        (init_manager (Some (round_double (17 / 10))) 0 [(''D'', model_D)])
        [(''tinyllama'', probe_ok)])
     > max_memory_gb
         (run_loads double_arith
            (init_manager (Some (round_double (17 / 10))) 0 [(''D'', model_D)])
            [(''tinyllama'', probe_ok)])"
  by (simp add: mgr_simps)

section \<open>A load that cannot fit\<close>

text \<open>
  C2, as the code has it. \<^verbatim>\<open>smart_model_load\<close> has no outcome for exhausted memory and
  does not look at the headroom again after the eviction pass. When the pass leaves too
  little headroom for the requested catalogue model, the load probe runs all the same and
  the probe alone decides how the call ends, whatever the float arithmetic. If the probe
  returns, the call returns \<^verbatim>\<open>True\<close>, the requested model is \<^verbatim>\<open>'loaded'\<close> and is
  entered in \<^verbatim>\<open>loaded_models\<close>. If the probe raises an \<^verbatim>\<open>Exception\<close>, the call returns
  \<^verbatim>\<open>False\<close> and the requested model is \<^verbatim>\<open>'unloaded'\<close>. If the probe ends in an
  exception that \<^verbatim>\<open>except Exception\<close> does not catch, the exception leaves the call and
  the requested model stays \<^verbatim>\<open>'loading'\<close>. In the last two cases \<^verbatim>\<open>loaded_models\<close>
  keeps its entries. In every case the models that the eviction pass unloaded are
  \<^verbatim>\<open>'unloaded'\<close> and every other model keeps its status.
\<close>

theorem load_outcome_follows_probe:
  assumes wf: "wf_manager m" and sp: "map_of (model_specs m) n = Some a"
    and nl: "\<not> already_loaded m n"
    and ins: "fadd fa (get_current_memory_usage fa (fst (eviction_pass fa m a)))
                (size_gb (heap m a)) > max_memory_gb m"
  shows "fst (smart_model_load fa m n env) =
           (case probe env of
              ProbeReturns \<Rightarrow> Returned True
            | ProbeRaises \<Rightarrow> Returned False
            | ProbeCancelled \<Rightarrow> Raised) \<and>
         status (heap (snd (smart_model_load fa m n env)) a) =
           (case probe env of
              ProbeReturns \<Rightarrow> ''loaded''
            | ProbeRaises \<Rightarrow> ''unloaded''
            | ProbeCancelled \<Rightarrow> ''loading'') \<and>
         loaded_models (snd (smart_model_load fa m n env)) =
           (if probe env = ProbeReturns then AList.update n a (loaded_models m)
            else loaded_models m) \<and>
         (\<forall>p \<in> set (loaded_models m). fst p \<noteq> n \<longrightarrow>
            status (heap (snd (smart_model_load fa m n env)) (snd p)) =
              (if fst p \<in> set (snd (eviction_pass fa m a)) then ''unloaded''
               else status (heap m (snd p))))"
proof -
  let ?xs = "models_to_unload m"
  let ?m' = "snd (smart_model_load fa m n env)"
  from eviction_pass_prefix[of m fa a]
  obtain k where k: "eviction_pass fa m a =
       (m\<lparr>heap := unload_all (take k ?xs) (heap m)\<rparr>, map fst (take k ?xs))"
    by blast
  have dk: "distinct (map fst (loaded_models m))" and da: "distinct (map snd (loaded_models m))"
    using wf unfolding wf_manager_def by simp_all
  have r: "fst (smart_model_load fa m n env) =
           (case probe env of ProbeReturns \<Rightarrow> Returned True
            | ProbeRaises \<Rightarrow> Returned False | ProbeCancelled \<Rightarrow> Raised)"
    by (cases "probe env") (simp_all add: smart_model_load_slow[OF nl sp])
  have st: "status (heap ?m' a) =
           (case probe env of ProbeReturns \<Rightarrow> ''loaded''
            | ProbeRaises \<Rightarrow> ''unloaded'' | ProbeCancelled \<Rightarrow> ''loading'')"
    by (cases "probe env") (simp_all add: smart_model_load_slow[OF nl sp])
  have lm: "loaded_models ?m' =
           (if probe env = ProbeReturns then AList.update n a (loaded_models m)
            else loaded_models m)"
    by (cases "probe env")
       (simp_all add: smart_model_load_slow[OF nl sp] eviction_pass_frame)
  have other: "\<And>b. b \<noteq> a \<Longrightarrow> heap ?m' b = unload_all (take k ?xs) (heap m) b"
  proof -
    fix b assume "b \<noteq> a"
    then show "heap ?m' b = unload_all (take k ?xs) (heap m) b"
      by (cases "probe env") (simp_all add: smart_model_load_slow[OF nl sp] k)
  qed
  have rest: "\<forall>p \<in> set (loaded_models m). fst p \<noteq> n \<longrightarrow>
            status (heap ?m' (snd p)) =
              (if fst p \<in> set (snd (eviction_pass fa m a)) then ''unloaded''
               else status (heap m (snd p)))"
  proof (intro ballI impI)
    fix p assume p: "p \<in> set (loaded_models m)" and pn: "fst p \<noteq> n"
    have "(n, a) \<in> set (model_specs m)" using sp by (rule map_of_SomeD)
    then have ne: "snd p \<noteq> a" using wf p pn unfolding wf_manager_def by force
    have "status (heap ?m' (snd p)) =
            (if snd p \<in> snd ` set (take k ?xs) then ''unloaded'' else status (heap m (snd p)))"
      unfolding other[OF ne] by (rule status_unload_all)
    moreover have "(snd p \<in> snd ` set (take k ?xs)) = (fst p \<in> set (map fst (take k ?xs)))"
      using addr_in_prefix[OF da p, of k] name_in_prefix[OF dk p, of k] by simp
    ultimately show "status (heap ?m' (snd p)) =
              (if fst p \<in> set (snd (eviction_pass fa m a)) then ''unloaded''
               else status (heap m (snd p)))"
      unfolding k by simp
  qed
  show ?thesis using r st lm rest by blast
qed

theorem load_outcome_follows_probe_witness:
  "wf_manager (init_manager (Some (1 / 2)) 0 [(''A'', model_A)]) \<and>
   map_of (model_specs (init_manager (Some (1 / 2)) 0 [(''A'', model_A)])) ''tinyllama'' = Some 0 \<and>
   \<not> already_loaded (init_manager (Some (1 / 2)) 0 [(''A'', model_A)]) ''tinyllama'' \<and>
   fadd double_arith
     (get_current_memory_usage double_arith
        (fst (eviction_pass double_arith (init_manager (Some (1 / 2)) 0 [(''A'', model_A)]) 0)))
     (size_gb (heap (init_manager (Some (1 / 2)) 0 [(''A'', model_A)]) 0))
     > max_memory_gb (init_manager (Some (1 / 2)) 0 [(''A'', model_A)]) \<and>
   (''A'', 1) \<in> set (loaded_models (init_manager (Some (1 / 2)) 0 [(''A'', model_A)])) \<and>
   ''A'' \<in> set (snd (eviction_pass double_arith
                        (init_manager (Some (1 / 2)) 0 [(''A'', model_A)]) 0)) \<and>
   fst (smart_model_load double_arith (init_manager (Some (1 / 2)) 0 [(''A'', model_A)])
          ''tinyllama'' probe_cancelled) = Raised \<and>
   status (heap (snd (smart_model_load double_arith
                        (init_manager (Some (1 / 2)) 0 [(''A'', model_A)])
                        ''tinyllama'' probe_cancelled)) 0) = ''loading'' \<and>
   status (heap (snd (smart_model_load double_arith
                        (init_manager (Some (1 / 2)) 0 [(''A'', model_A)])
                        ''tinyllama'' probe_cancelled)) 1) = ''unloaded''"
proof -
  let ?m = "init_manager (Some (1 / 2)) 0 [(''A'', model_A)]"
  have w: "wf_manager ?m" by (simp add: mgr_simps)
  have s: "map_of (model_specs ?m) ''tinyllama'' = Some 0" by (simp add: mgr_simps)
  have n: "\<not> already_loaded ?m ''tinyllama''" by (simp add: mgr_simps)
  have i: "fadd double_arith
             (get_current_memory_usage double_arith (fst (eviction_pass double_arith ?m 0)))
             (size_gb (heap ?m 0)) > max_memory_gb ?m"
    by (simp add: mgr_simps)
  have a: "(''A'', 1) \<in> set (loaded_models ?m)" by (simp add: mgr_simps)
  have e: "''A'' \<in> set (snd (eviction_pass double_arith ?m 0))" by (simp add: mgr_simps)
  have c: "probe probe_cancelled = ProbeCancelled" by (simp add: probe_cancelled_def)
  from load_outcome_follows_probe[OF w s n i, of probe_cancelled]
  have "fst (smart_model_load double_arith ?m ''tinyllama'' probe_cancelled) = Raised"
    and "status (heap (snd (smart_model_load double_arith ?m ''tinyllama'' probe_cancelled)) 0)
           = ''loading''"
    and r: "\<forall>p \<in> set (loaded_models ?m). fst p \<noteq> ''tinyllama'' \<longrightarrow>
            status (heap (snd (smart_model_load double_arith ?m ''tinyllama'' probe_cancelled))
                      (snd p)) =
              (if fst p \<in> set (snd (eviction_pass double_arith ?m 0)) then ''unloaded''
               else status (heap ?m (snd p)))"
    unfolding c by simp_all
  moreover have "status (heap (snd (smart_model_load double_arith ?m ''tinyllama''
                                      probe_cancelled)) 1) = ''unloaded''"
    using r a e by force
  ultimately show ?thesis using w s n i a e by blast
qed

text \<open>
  The claim as stated fails: with a budget of 0.5 GB and the resident model \<open>A\<close>, the
  request for \<^verbatim>\<open>tinyllama\<close> lacks headroom even after eviction, yet the call returns
  \<^verbatim>\<open>True\<close> with \<^verbatim>\<open>tinyllama\<close> loaded, \<open>A\<close> has been unloaded whether the probe
  returns or raises, and a cancelled probe leaves \<^verbatim>\<open>tinyllama\<close> with the status
  \<^verbatim>\<open>'loading'\<close>.
\<close>

theorem resource_exhausted_counterexample:
  "fadd double_arith
     (get_current_memory_usage double_arith
        (fst (eviction_pass double_arith (init_manager (Some (1 / 2)) 0 [(''A'', model_A)]) 0)))
     (size_gb tinyllama_spec)
     > max_memory_gb (init_manager (Some (1 / 2)) 0 [(''A'', model_A)]) \<and>
   fst (smart_model_load double_arith (init_manager (Some (1 / 2)) 0 [(''A'', model_A)])
          ''tinyllama'' probe_ok) = Returned True \<and>
   already_loaded
     (snd (smart_model_load double_arith (init_manager (Some (1 / 2)) 0 [(''A'', model_A)])
             ''tinyllama'' probe_ok))
     ''tinyllama'' \<and>
   already_loaded (init_manager (Some (1 / 2)) 0 [(''A'', model_A)]) ''A'' \<and>
   \<not> already_loaded
     (snd (smart_model_load double_arith (init_manager (Some (1 / 2)) 0 [(''A'', model_A)])
             ''tinyllama'' probe_ok))
     ''A'' \<and>
   \<not> already_loaded
     (snd (smart_model_load double_arith (init_manager (Some (1 / 2)) 0 [(''A'', model_A)])
             ''tinyllama'' probe_fails))
     ''A'' \<and>
   status (heap (snd (smart_model_load double_arith
                        (init_manager (Some (1 / 2)) 0 [(''A'', model_A)])
                        ''tinyllama'' probe_cancelled)) 0) = ''loading''"
  by (simp add: mgr_simps)

section \<open>Eviction order\<close>

text \<open>
  C3, as the code has it. The eviction pass unloads the loaded models in ascending order of
  \<^verbatim>\<open>(priority, last_used)\<close>, whatever the float arithmetic: if \<open>x\<close> and \<open>y\<close> are loaded,
  \<open>x\<close> has the smaller priority number, or the same priority and the older
  \<^verbatim>\<open>last_used\<close>, and the pass unloads \<open>y\<close>, then it has unloaded \<open>x\<close> earlier. So a model
  of priority 1 goes before a model of priority 2, and among equal priorities the oldest
  \<^verbatim>\<open>last_used\<close> goes first.
\<close>

theorem eviction_order_ascending_priority:
  assumes wf: "wf_manager m"
    and x: "(nx, ax) \<in> set (loaded_models m)" "status (heap m ax) = ''loaded''"
    and y: "(ny, ay) \<in> set (loaded_models m)" "status (heap m ay) = ''loaded''"
    and key: "priority (heap m ax) < priority (heap m ay) \<or>
              (priority (heap m ax) = priority (heap m ay) \<and>
               last_used (heap m ax) < last_used (heap m ay))"
    and ev: "ny \<in> set (snd (free_memory_for_model fa m required))"
  shows "(\<exists>i j. i < j \<and> j < length (snd (free_memory_for_model fa m required)) \<and>
            snd (free_memory_for_model fa m required) ! i = nx \<and>
            snd (free_memory_for_model fa m required) ! j = ny) \<and>
         status (heap (fst (free_memory_for_model fa m required)) ax) = ''unloaded'' \<and>
         status (heap (fst (free_memory_for_model fa m required)) ay) = ''unloaded''"
proof -
  let ?xs = "models_to_unload m"
  have d: "distinct (map snd (loaded_models m))" and dk: "distinct (map fst (loaded_models m))"
    using wf unfolding wf_manager_def by simp_all
  from free_memory_prefix[of m fa required]
  obtain k where k: "k \<le> length ?xs"
    "free_memory_for_model fa m required =
       (m\<lparr>heap := unload_all (take k ?xs) (heap m)\<rparr>, map fst (take k ?xs))"
    by blast
  have tr: "snd (free_memory_for_model fa m required) = map fst (take k ?xs)"
    and hp: "heap (fst (free_memory_for_model fa m required)) = unload_all (take k ?xs) (heap m)"
    using k(2) by simp_all
  have srt: "sorted (map (unload_key (heap m)) ?xs)"
    unfolding models_to_unload_def by (rule sorted_sort_key)
  have xin: "(nx, ax) \<in> set ?xs" and yin: "(ny, ay) \<in> set ?xs"
    using x y by (simp_all add: models_to_unload_set is_loaded_def)
  from xin obtain i where i: "i < length ?xs" "?xs ! i = (nx, ax)"
    by (auto simp: in_set_conv_nth)
  from ev obtain j where j: "j < k" "fst (?xs ! j) = ny"
    unfolding tr using k(1) by (auto simp: in_set_conv_nth)
  have jl: "j < length ?xs" using j(1) k(1) by simp
  have "?xs ! j \<in> set (loaded_models m)"
    using jl models_to_unload_set[of m] nth_mem[of j ?xs] by blast
  then have "(ny, snd (?xs ! j)) \<in> set (loaded_models m)" using j(2) by (metis prod.collapse)
  then have "snd (?xs ! j) = ay" using y(1) dk by (meson eq_key_imp_eq_value)
  then have xj: "?xs ! j = (ny, ay)" using j(2) by (metis prod.collapse)
  have "unload_key (heap m) (?xs ! i) < unload_key (heap m) (?xs ! j)"
    using key by (auto simp: i(2) xj unload_key_def)
  then have ij: "i < j" using nth_of_sorted_keys[OF srt i(1) jl] by simp
  have len: "length (map fst (take k ?xs)) = k" using k(1) by simp
  have ti: "map fst (take k ?xs) ! i = nx" using ij j(1) i k(1) by simp
  have tj: "map fst (take k ?xs) ! j = ny" using j k(1) by simp
  have ik: "i < k" using ij j(1) by simp
  have lk: "length (take k ?xs) = k" using k(1) by simp
  have "take k ?xs ! i \<in> set (take k ?xs)" using lk ik by (metis nth_mem)
  then have "(nx, ax) \<in> set (take k ?xs)" using ik i(2) by simp
  then have "ax \<in> snd ` set (take k ?xs)" by (metis imageI snd_conv)
  then have sx: "status (unload_all (take k ?xs) (heap m) ax) = ''unloaded''"
    by (simp add: status_unload_all)
  have "take k ?xs ! j \<in> set (take k ?xs)" using lk j(1) by (metis nth_mem)
  then have "(ny, ay) \<in> set (take k ?xs)" using j(1) xj by simp
  then have "ay \<in> snd ` set (take k ?xs)" by (metis imageI snd_conv)
  then have sy: "status (unload_all (take k ?xs) (heap m) ay) = ''unloaded''"
    by (simp add: status_unload_all)
  have "i < j \<and> j < length (map fst (take k ?xs)) \<and>
        map fst (take k ?xs) ! i = nx \<and> map fst (take k ?xs) ! j = ny"
    using ij j(1) len ti tj by simp
  then have "\<exists>i j. i < j \<and> j < length (map fst (take k ?xs)) \<and>
        map fst (take k ?xs) ! i = nx \<and> map fst (take k ?xs) ! j = ny"
    by blast
  then show ?thesis
    unfolding tr hp using sx sy by simp
qed

theorem eviction_order_ascending_priority_witness:
  "wf_manager (init_manager (Some 1) 0 [(''A'', model_A), (''B'', model_B)]) \<and>
   (''A'', 1) \<in> set (loaded_models (init_manager (Some 1) 0 [(''A'', model_A), (''B'', model_B)])) \<and>
   (''B'', 2) \<in> set (loaded_models (init_manager (Some 1) 0 [(''A'', model_A), (''B'', model_B)])) \<and>
   priority (heap (init_manager (Some 1) 0 [(''A'', model_A), (''B'', model_B)]) 1)
     < priority (heap (init_manager (Some 1) 0 [(''A'', model_A), (''B'', model_B)]) 2) \<and>
   ''B'' \<in> set (snd (free_memory_for_model double_arith
                  (init_manager (Some 1) 0 [(''A'', model_A), (''B'', model_B)])
                  (round_double (6 / 10)))) \<and>
   (\<exists>i j. i < j \<and>
      j < length (snd (free_memory_for_model double_arith
                  (init_manager (Some 1) 0 [(''A'', model_A), (''B'', model_B)])
                  (round_double (6 / 10)))) \<and>
      snd (free_memory_for_model double_arith
             (init_manager (Some 1) 0 [(''A'', model_A), (''B'', model_B)])
             (round_double (6 / 10))) ! i = ''A'' \<and>
      snd (free_memory_for_model double_arith
             (init_manager (Some 1) 0 [(''A'', model_A), (''B'', model_B)])
             (round_double (6 / 10))) ! j = ''B'')"
proof -
  let ?m = "init_manager (Some 1) 0 [(''A'', model_A), (''B'', model_B)]"
  have w: "wf_manager ?m" by (simp add: mgr_simps)
  have x: "(''A'', 1) \<in> set (loaded_models ?m)" "status (heap ?m 1) = ''loaded''"
    by (simp_all add: mgr_simps)
  have y: "(''B'', 2) \<in> set (loaded_models ?m)" "status (heap ?m 2) = ''loaded''"
    by (simp_all add: mgr_simps)
  have p: "priority (heap ?m 1) < priority (heap ?m 2)" by (simp add: mgr_simps)
  then have k: "priority (heap ?m 1) < priority (heap ?m 2) \<or>
      (priority (heap ?m 1) = priority (heap ?m 2) \<and>
       last_used (heap ?m 1) < last_used (heap ?m 2))" by simp
  have e: "''B'' \<in> set (snd (free_memory_for_model double_arith ?m (round_double (6 / 10))))"
    by (simp add: mgr_simps)
  show ?thesis
    using w x(1) y(1) p e eviction_order_ascending_priority[OF w x y k e] by blast
qed

text \<open>
  The claim as stated fails: with \<open>A\<close> (priority 1, older) and \<open>B\<close> (priority 2) resident
  and room needed for one of them, the pass unloads \<open>A\<close> and keeps \<open>B\<close>.
\<close>

theorem eviction_order_counterexample:
  "priority (heap (init_manager (Some (round_double (12 / 10))) 0
                     [(''A'', model_A), (''B'', model_B)]) 1) = 1 \<and>
   priority (heap (init_manager (Some (round_double (12 / 10))) 0
                     [(''A'', model_A), (''B'', model_B)]) 2) = 2 \<and>
   last_used (heap (init_manager (Some (round_double (12 / 10))) 0
                      [(''A'', model_A), (''B'', model_B)]) 1)
     < last_used (heap (init_manager (Some (round_double (12 / 10))) 0
                          [(''A'', model_A), (''B'', model_B)]) 2) \<and>
   loaded_models (init_manager (Some (round_double (12 / 10))) 0
                    [(''A'', model_A), (''B'', model_B)])
     = [(''A'', 1), (''B'', 2)] \<and>
   already_loaded (init_manager (Some (round_double (12 / 10))) 0
                     [(''A'', model_A), (''B'', model_B)]) ''A'' \<and>
   already_loaded (init_manager (Some (round_double (12 / 10))) 0
                     [(''A'', model_A), (''B'', model_B)]) ''B'' \<and>
   snd (free_memory_for_model double_arith
          (init_manager (Some (round_double (12 / 10))) 0 [(''A'', model_A), (''B'', model_B)])
          (round_double (6 / 10)))
     = [''A''] \<and>
   \<not> already_loaded
       (snd (smart_model_load double_arith
          (init_manager (Some (round_double (12 / 10))) 0 [(''A'', model_A), (''B'', model_B)])
          ''tinyllama'' probe_ok)) ''A'' \<and>
   already_loaded
       (snd (smart_model_load double_arith
          (init_manager (Some (round_double (12 / 10))) 0 [(''A'', model_A), (''B'', model_B)])
          ''tinyllama'' probe_ok)) ''B''"
  by (simp add: mgr_simps)

section \<open>The batch scheduler\<close>

lemma drain_loop_take_drop:
  "drain_loop k q b =
     (drop (nat (k - int (length b))) q, b @ take (nat (k - int (length b))) q)"
proof (induction q arbitrary: b)
  case Nil
  then show ?case by simp
next
  case (Cons r q)
  show ?case
  proof (cases "int (length b) < k")
    case True
    then have "nat (k - int (length b)) = Suc (nat (k - int (length (b @ [r]))))" by simp
    then show ?thesis using True Cons.IH[of "b @ [r]"] by simp
  next
    case False
    then show ?thesis by simp
  qed
qed

lemma get_optimal_batch_take:
  "fst (get_optimal_batch lib sl env e) =
     take (nat (predict_optimal_batch_size lib sl env e)) (pending_requests e)"
  "pending_requests (snd (get_optimal_batch lib sl env e)) =
     drop (nat (predict_optimal_batch_size lib sl env e)) (pending_requests e)"
  by (simp_all add: get_optimal_batch_def drain_loop_take_drop Let_def)

lemma fold_try_size_range:
  "fst (fold (try_size lib pm fs) xs best) \<in> insert (fst best) (set xs)"
proof (induction xs arbitrary: best)
  case Nil
  then show ?case by simp
next
  case (Cons x xs)
  have "fst (try_size lib pm fs x best) \<in> {fst best, x}"
    by (simp add: try_size_def Let_def split: option.splits)
  then show ?case using Cons.IH[of "try_size lib pm fs x best"] by auto
qed


lemma predict_with_model_positive:
  assumes "performance_model e = Some pm" "pending_requests e \<noteq> []"
  shows "1 \<le> predict_optimal_batch_size lib sl env e"
proof -
  let ?fs = "[real (length (pending_requests e)),
              mean (map (\<lambda>req. real (sl (data req))) (take 5 (pending_requests e))),
              cpu_percent env, memory_percent env]"
  let ?xs = "[1 .. min (int (length (pending_requests e)) + 1) (max_batch_size e + 1) - 1]"
  have "fst (fold (try_size lib pm ?fs) ?xs (1, None)) \<in> insert 1 (set ?xs)"
    using fold_try_size_range[of lib pm ?fs ?xs "(1, None)"] by simp
  then have "1 \<le> fst (fold (try_size lib pm ?fs) ?xs (1, None))" by auto
  then show ?thesis using assms by (simp add: predict_optimal_batch_size_def Let_def)
qed

lemma run_enqueues:
  "run_batch_ops lib sl e (map (\<lambda>p. Enqueue (fst p) (snd p)) ds) =
     map int [length (pending_requests e) ..< length (pending_requests e) + length ds]"
proof (induction ds arbitrary: e)
  case Nil
  then show ?case by simp
next
  case (Cons d ds)
  have l: "length (pending_requests (snd (add_request e (fst d) (snd d))))
             = Suc (length (pending_requests e))"
    by (simp add: add_request_def Let_def)
  have f: "fst (add_request e (fst d) (snd d)) = int (length (pending_requests e))"
    by (simp add: add_request_def Let_def)
  have u: "[length (pending_requests e) ..< length (pending_requests e) + length (d # ds)] =
           length (pending_requests e) #
             [Suc (length (pending_requests e)) ..< Suc (length (pending_requests e)) + length ds]"
    by (simp add: upt_conv_Cons del: upt_Suc)
  have "run_batch_ops lib sl e (map (\<lambda>p. Enqueue (fst p) (snd p)) (d # ds)) =
          int (length (pending_requests e)) #
            map int [Suc (length (pending_requests e)) ..<
                     Suc (length (pending_requests e)) + length ds]"
    using Cons.IH[of "snd (add_request e (fst d) (snd d))"] by (simp only: list.map run_batch_ops.simps l f)
  then show ?case unfolding u by simp
qed


lemmas batch_simps = init_batching_engine_def add_request_def get_optimal_batch_def
  predict_optimal_batch_size_def failing_ridge_def idle_system_def sample_record_def
  try_size_def efficiency_less_def Let_def record_batch_performance_def
  train_performance_model_def deque_append_def record_features_def busy_engine_def
  fit_history_def

text \<open>
  C4, as the code has it. If the pending queue holds at least one request and either a
  performance model is installed or \<^verbatim>\<open>max_batch_size\<close> is at least 1, then
  \<^verbatim>\<open>get_optimal_batch\<close> returns a non-empty batch, whatever the estimator does: fitted or
  not, and also when every prediction raises.
\<close>

theorem nonempty_batch:
  assumes "pending_requests e \<noteq> []"
    and "performance_model e \<noteq> None \<or> 1 \<le> max_batch_size e"
  shows "fst (get_optimal_batch lib sl env e) \<noteq> []"
proof -
  have "1 \<le> predict_optimal_batch_size lib sl env e"
  proof (cases "performance_model e")
    case None
    then have "1 \<le> max_batch_size e" using assms(2) by simp
    moreover have "1 \<le> int (length (pending_requests e))"
      using assms(1) by (cases "pending_requests e") simp_all
    ultimately show ?thesis using None by (simp add: predict_optimal_batch_size_def)
  next
    case (Some pm)
    then show ?thesis using assms(1) by (rule predict_with_model_positive)
  qed
  then show ?thesis using assms(1) by (simp add: get_optimal_batch_take)
qed

theorem nonempty_batch_witness:
  "pending_requests
     (snd (add_request (init_batching_engine 8 (1 / 2)\<lparr>performance_model := Some ()\<rparr>) ''q1'' 5))
     \<noteq> [] \<and>
   fst (get_optimal_batch failing_ridge length idle_system
         (snd (add_request (init_batching_engine 8 (1 / 2)\<lparr>performance_model := Some ()\<rparr>)
                ''q1'' 5))) \<noteq> []"
proof -
  let ?e = "snd (add_request (init_batching_engine 8 (1 / 2)\<lparr>performance_model := Some ()\<rparr>)
                ''q1'' 5)"
  have p: "pending_requests ?e \<noteq> []" by (simp add: batch_simps)
  have m: "performance_model ?e \<noteq> None \<or> 1 \<le> max_batch_size ?e" by (simp add: batch_simps)
  show ?thesis using p nonempty_batch[OF p m, of failing_ridge length idle_system] by blast
qed

text \<open>
  The claim as stated fails for an engine built with \<^verbatim>\<open>max_batch_size = 0\<close> and no
  performance model: one request is pending and the batch is empty.
\<close>

theorem nonempty_batch_counterexample:
  "pending_requests
     (snd (add_request (init_batching_engine 0 (1 / 2) :: (string, unit) batching_engine) ''q1'' 5))
     \<noteq> [] \<and>
   fst (get_optimal_batch failing_ridge length idle_system
         (snd (add_request (init_batching_engine 0 (1 / 2)) ''q1'' 5))) = []"
  by (simp add: batch_simps)

text \<open>
  C8, as the code has it. \<^verbatim>\<open>add_request\<close> returns the number of requests pending at the
  time of the call. Enqueue calls with no \<^verbatim>\<open>get_optimal_batch\<close> between them return
  consecutive numbers, starting at the current queue length.
\<close>

theorem enqueue_returns_queue_position:
  "fst (add_request e d t) = int (length (pending_requests e)) \<and>
   run_batch_ops lib sl e (map (\<lambda>p. Enqueue (fst p) (snd p)) ds) =
     map int [length (pending_requests e) ..< length (pending_requests e) + length ds]"
  using run_enqueues[of lib sl e ds] by (simp add: add_request_def Let_def)

text \<open>
  The claim as stated fails across a drain: two enqueues return 0 and 1, the drain empties
  the queue, and the next enqueue returns 0 again.
\<close>

theorem enqueue_monotonic_counterexample:
  "run_batch_ops failing_ridge length (init_batching_engine 8 (1 / 2))
     [Enqueue ''q1'' 1, Enqueue ''q2'' 2, Drain idle_system, Enqueue ''q3'' 3] = [0, 1, 0] \<and>
   \<not> sorted (run_batch_ops failing_ridge length (init_batching_engine 8 (1 / 2))
     [Enqueue ''q1'' 1, Enqueue ''q2'' 2, Drain idle_system, Enqueue ''q3'' 3])"
  by (simp add: batch_simps)




section \<open>The semantic cache\<close>

lemma get_query_embedding_frame:
  "cache (snd (get_query_embedding lib ce q)) = cache ce"
  "embeddings (snd (get_query_embedding lib ce q)) = embeddings ce"
  "cache_size (snd (get_query_embedding lib ce q)) = cache_size ce"
  "similarity_threshold (snd (get_query_embedding lib ce q)) = similarity_threshold ce"
  by (simp_all add: get_query_embedding_def split: prod.splits option.splits)

lemma get_query_embedding_threshold:
  "fst (get_query_embedding lib (ce\<lparr>similarity_threshold := th\<rparr>) q)
     = fst (get_query_embedding lib ce q)"
  "cache (snd (get_query_embedding lib (ce\<lparr>similarity_threshold := th\<rparr>) q)) = cache ce"
  "embeddings (snd (get_query_embedding lib (ce\<lparr>similarity_threshold := th\<rparr>) q))
     = embeddings ce"
  "similarity_threshold (snd (get_query_embedding lib (ce\<lparr>similarity_threshold := th\<rparr>) q))
     = th"
  by (simp_all add: get_query_embedding_def split: prod.splits option.splits)

lemma remove_entry_filter:
  "cache (remove_entry p ce) = filter (\<lambda>x. fst x \<noteq> fst p) (cache ce)"
  "embeddings (remove_entry p ce) = filter (\<lambda>x. fst x \<noteq> fst p) (embeddings ce)"
  "cache_size (remove_entry p ce) = cache_size ce"
  by (auto simp: remove_entry_def AList.delete_eq intro: filter_cong)

lemma fold_remove_entry:
  "cache (fold remove_entry ps ce) = filter (\<lambda>x. fst x \<notin> fst ` set ps) (cache ce) \<and>
   embeddings (fold remove_entry ps ce) =
     filter (\<lambda>x. fst x \<notin> fst ` set ps) (embeddings ce) \<and>
   cache_size (fold remove_entry ps ce) = cache_size ce"
proof (induction ps arbitrary: ce)
  case Nil
  show ?case by simp
next
  case (Cons p ps)
  have f: "fold remove_entry (p # ps) ce = fold remove_entry ps (remove_entry p ce)" by simp
  from Cons.IH[of "remove_entry p ce"]
  have a: "cache (fold remove_entry ps (remove_entry p ce)) =
             filter (\<lambda>x. fst x \<notin> fst ` set ps) (cache (remove_entry p ce))"
    and b: "embeddings (fold remove_entry ps (remove_entry p ce)) =
             filter (\<lambda>x. fst x \<notin> fst ` set ps) (embeddings (remove_entry p ce))"
    and c: "cache_size (fold remove_entry ps (remove_entry p ce)) =
             cache_size (remove_entry p ce)"
    by blast+
  show ?case
    unfolding f a b c remove_entry_filter
    by (auto intro: filter_cong)
qed

lemma alist_update_fresh:
  "k \<notin> fst ` set al \<Longrightarrow> AList.update k v al = al @ [(k, v)]"
  by (induction al) auto

lemma length_filter_removed:
  assumes d: "distinct (map fst xs)" and sub: "set ps \<subseteq> set xs" and dp: "distinct ps"
  shows "length (filter (\<lambda>p. fst p \<notin> fst ` set ps) xs) = length xs - length ps"
proof -
  let ?in = "filter (\<lambda>p. fst p \<in> fst ` set ps) xs"
  have dx: "distinct xs" using d by (rule distinct_map[THEN iffD1, THEN conjunct1])
  have "set ?in = set ps"
  proof
    show "set ?in \<subseteq> set ps"
    proof
      fix p assume "p \<in> set ?in"
      then have p: "p \<in> set xs" "fst p \<in> fst ` set ps" by auto
      then obtain r where r: "r \<in> set ps" "fst r = fst p" by force
      then have "r \<in> set xs" using sub by auto
      then have "r = p" using p(1) r(2) d
        by (metis eq_key_imp_eq_value prod.collapse)
      then show "p \<in> set ps" using r(1) by simp
    qed
    show "set ps \<subseteq> set ?in" using sub by auto
  qed
  moreover have "distinct ?in" using dx by simp
  ultimately have "length ?in = length ps"
    using dp by (metis distinct_card)
  moreover have "length ?in + length (filter (\<lambda>p. \<not> fst p \<in> fst ` set ps) xs) = length xs"
    by (rule sum_length_filter_compl)
  ultimately show ?thesis by simp
qed

lemma sorted_take_le_rest:
  assumes "p \<in> set (take n (sort_key g xs))" "q \<in> set xs" "q \<notin> set (take n (sort_key g xs))"
  shows "g p \<le> g q"
proof -
  let ?s = "sort_key g xs"
  have "q \<in> set (take n ?s @ drop n ?s)" using assms(2) by simp
  then have qd: "q \<in> set (drop n ?s)" using assms(3) by (simp only: set_append) blast
  have "sorted (map g (take n ?s @ drop n ?s))" by simp
  then have "\<forall>x \<in> set (map g (take n ?s)). \<forall>y \<in> set (map g (drop n ?s)). x \<le> y"
    by (simp only: map_append sorted_append) blast
  then show ?thesis using assms(1) qd by simp
qed

lemma set_similarities:
  "set (similarities lib th emb es) =
     {(k, s). \<exists>e. (k, e) \<in> set es \<and> cosine_similarity lib emb (embedding e) = Some s \<and> th \<le> s}"
proof (induction es)
  case Nil
  then show ?case by simp
next
  case (Cons p es)
  obtain a b where p: "p = (a, b)" by (cases p)
  show ?case
  proof (cases "cosine_similarity lib emb (embedding b)")
    case None
    then show ?thesis unfolding p using Cons.IH by fastforce
  next
    case (Some x)
    show ?thesis
    proof (cases "th \<le> x")
      case True
      then show ?thesis unfolding p using Cons.IH Some by fastforce
    next
      case False
      then show ?thesis unfolding p using Cons.IH Some by fastforce
    qed
  qed
qed

lemma sort_key_desc_head:
  assumes "xs \<noteq> []"
  shows "\<exists>x rest. sort_key (\<lambda>x. - snd x) xs = x # rest \<and> x \<in> set xs \<and>
           (\<forall>y \<in> set xs. snd y \<le> (snd x :: real))"
proof -
  let ?s = "sort_key (\<lambda>x. - snd x) xs"
  have "?s \<noteq> []" using assms by (metis length_0_conv length_sort)
  then obtain x rest where s: "?s = x # rest" by (cases ?s) auto
  have "sorted (map (\<lambda>x. - snd x) ?s)" by (rule sorted_sort_key)
  then have "\<forall>y \<in> set rest. - snd x \<le> - snd y" unfolding s by simp
  moreover have "set xs = insert x (set rest)" using s by (metis list.simps(15) set_sort)
  ultimately show ?thesis using s by auto
qed

lemma find_similar_none:
  assumes "\<forall>p \<in> set (embeddings ce).
             (case cosine_similarity lib emb (embedding (snd p)) of
                None \<Rightarrow> True | Some s \<Rightarrow> s < similarity_threshold ce)"
  shows "find_similar_queries lib ce emb = []"
proof -
  have "set (similarities lib (similarity_threshold ce) emb (embeddings ce)) = {}"
    using assms unfolding set_similarities by (force split: option.splits)
  then show ?thesis by (simp add: find_similar_queries_def)
qed

lemma find_similar_best:
  assumes "(k, e) \<in> set (embeddings ce)" "cosine_similarity lib emb (embedding e) = Some s"
    "similarity_threshold ce \<le> s"
  shows "\<exists>k' e' s' rest. find_similar_queries lib ce emb = (k', s') # rest \<and>
           (k', e') \<in> set (embeddings ce) \<and>
           cosine_similarity lib emb (embedding e') = Some s' \<and>
           similarity_threshold ce \<le> s' \<and>
           (\<forall>p \<in> set (embeddings ce). \<forall>s''.
              cosine_similarity lib emb (embedding (snd p)) = Some s'' \<longrightarrow> s'' \<le> s')"
proof -
  let ?sims = "similarities lib (similarity_threshold ce) emb (embeddings ce)"
  have "(k, s) \<in> set ?sims" using assms unfolding set_similarities by blast
  then have ne: "?sims \<noteq> []" by auto
  from sort_key_desc_head[OF ne]
  obtain x rest where x: "sort_key (\<lambda>x. - snd x) ?sims = x # rest" "x \<in> set ?sims"
    "\<forall>y \<in> set ?sims. snd y \<le> snd x" by blast
  obtain k' s' where ks: "x = (k', s')" by (cases x)
  from x(2) obtain e' where e': "(k', e') \<in> set (embeddings ce)"
    "cosine_similarity lib emb (embedding e') = Some s'" "similarity_threshold ce \<le> s'"
    unfolding set_similarities ks by blast
  have mx: "\<forall>p \<in> set (embeddings ce). \<forall>s''.
              cosine_similarity lib emb (embedding (snd p)) = Some s'' \<longrightarrow> s'' \<le> s'"
  proof (intro ballI allI impI)
    fix p s'' assume p: "p \<in> set (embeddings ce)"
      and c: "cosine_similarity lib emb (embedding (snd p)) = Some s''"
    show "s'' \<le> s'"
    proof (cases "similarity_threshold ce \<le> s''")
      case True
      then have "(fst p, s'') \<in> set ?sims"
        unfolding set_similarities using p c by (cases p) auto
      then show ?thesis using x(3) ks by force
    next
      case False
      then show ?thesis using e'(3) by simp
    qed
  qed
  have "embeddings ce \<noteq> []" using assms(1) by auto
  then have "\<exists>rest'. find_similar_queries lib ce emb = (k', s') # rest'"
    using x(1) ks by (simp add: find_similar_queries_def numeral_3_eq_3)
  then show ?thesis using e' mx by blast
qed

text \<open>The engine keeps its dictionaries well formed.\<close>

lemma cache_wf_cong:
  "cache ce' = cache ce \<Longrightarrow> embeddings ce' = embeddings ce \<Longrightarrow> cache_wf ce' = cache_wf ce"
  by (simp add: cache_wf_def)

lemma cache_wf_init: "cache_wf (init_cache_engine n th v)"
  by (simp add: cache_wf_def init_cache_engine_def)

lemma cache_wf_evict:
  assumes "cache_wf ce"
  shows "cache_wf (evict_lru_entries ce)"
proof (cases "cache ce = []")
  case True
  then show ?thesis using assms by (simp add: evict_lru_entries_def)
next
  case False
  let ?ps = "take (max 1 (length (sort_key (\<lambda>x. last_accessed (snd x)) (cache ce)) div 5))
               (sort_key (\<lambda>x. last_accessed (snd x)) (cache ce))"
  have e: "evict_lru_entries ce = fold remove_entry ?ps ce"
    using False by (simp add: evict_lru_entries_def Let_def)
  have c: "cache (fold remove_entry ?ps ce) =
             filter (\<lambda>x. fst x \<notin> fst ` set ?ps) (cache ce)"
    and m: "embeddings (fold remove_entry ?ps ce) =
             filter (\<lambda>x. fst x \<notin> fst ` set ?ps) (embeddings ce)"
    using fold_remove_entry[of ?ps ce] by blast+
  have d: "distinct (map fst (cache ce))" "distinct (map fst (embeddings ce))"
    and sub: "fst ` set (embeddings ce) \<subseteq> fst ` set (cache ce)"
    using assms unfolding cache_wf_def by simp_all
  have "fst ` set (filter (\<lambda>x. fst x \<notin> fst ` set ?ps) (embeddings ce))
          \<subseteq> fst ` set (filter (\<lambda>x. fst x \<notin> fst ` set ?ps) (cache ce))"
  proof
    fix k assume "k \<in> fst ` set (filter (\<lambda>x. fst x \<notin> fst ` set ?ps) (embeddings ce))"
    then have k: "k \<in> fst ` set (embeddings ce)" "k \<notin> fst ` set ?ps" by auto
    then have "k \<in> fst ` set (cache ce)" using sub by auto
    then obtain x where "x \<in> set (cache ce)" "fst x = k" by auto
    then have "x \<in> set (filter (\<lambda>x. fst x \<notin> fst ` set ?ps) (cache ce))" using k(2) by simp
    then show "k \<in> fst ` set (filter (\<lambda>x. fst x \<notin> fst ` set ?ps) (cache ce))"
      using \<open>fst x = k\<close> by (metis imageI)
  qed
  then show ?thesis
    unfolding e cache_wf_def c m using d by (simp add: distinct_map_filter)
qed

lemma cache_wf_store:
  assumes "cache_wf ce"
  shows "cache_wf (ce\<lparr>cache := AList.update k v (cache ce),
                       embeddings := AList.update k w (embeddings ce)\<rparr>)"
proof -
  have d: "distinct (map fst (cache ce))" "distinct (map fst (embeddings ce))"
    and sub: "fst ` set (embeddings ce) \<subseteq> fst ` set (cache ce)"
    using assms unfolding cache_wf_def by simp_all
  have 1: "distinct (map fst (AList.update k v (cache ce)))" using d(1) by (rule distinct_update)
  have 2: "distinct (map fst (AList.update k w (embeddings ce)))"
    using d(2) by (rule distinct_update)
  have 3: "fst ` set (AList.update k w (embeddings ce))
             \<subseteq> fst ` set (AList.update k v (cache ce))"
    unfolding dom_update using sub by blast
  show ?thesis unfolding cache_wf_def using 1 2 3 by simp
qed

lemma cache_wf_cache_response:
  assumes "cache_wf ce"
  shows "cache_wf (cache_response lib ce q f r t1 t2 t3)"
proof -
  let ?ce1 = "snd (get_query_embedding lib ce q)"
  let ?ce2 = "if int (length (cache ?ce1)) \<ge> cache_size ?ce1
              then evict_lru_entries ?ce1 else ?ce1"
  have "cache_wf ?ce1 = cache_wf ce"
    by (rule cache_wf_cong) (rule get_query_embedding_frame)+
  then have "cache_wf ?ce1" using assms by simp
  then have w2: "cache_wf ?ce2" using cache_wf_evict[of ?ce1] by (cases "int (length (cache ?ce1)) \<ge> cache_size ?ce1") simp_all
  have "\<exists>k v w. cache_response lib ce q f r t1 t2 t3 =
          ?ce2\<lparr>cache := AList.update k v (cache ?ce2),
                embeddings := AList.update k w (embeddings ?ce2)\<rparr>"
    unfolding cache_response_def split_beta Let_def by blast
  then show ?thesis using cache_wf_store[OF w2] by metis
qed

lemma cache_wf_touch:
  assumes "cache_wf ce"
  shows "cache_wf (ce\<lparr>cache := AList.update k v (cache ce)\<rparr>)"
proof -
  have d: "distinct (map fst (cache ce))" "distinct (map fst (embeddings ce))"
    and sub: "fst ` set (embeddings ce) \<subseteq> fst ` set (cache ce)"
    using assms unfolding cache_wf_def by simp_all
  have 1: "distinct (map fst (AList.update k v (cache ce)))" using d(1) by (rule distinct_update)
  have 3: "fst ` set (embeddings ce) \<subseteq> fst ` set (AList.update k v (cache ce))"
    unfolding dom_update using sub by blast
  show ?thesis unfolding cache_wf_def using 1 d(2) 3 by simp
qed

lemma cache_wf_semantic_lookup:
  "cache_wf ce \<Longrightarrow> cache_wf (snd (semantic_lookup ce sims t))"
proof (induction sims)
  case Nil
  then show ?case by simp
next
  case (Cons p sims)
  obtain k s where p: "p = (k, s)" by (cases p)
  show ?case
  proof (cases "map_of (cache ce) k")
    case None
    then show ?thesis using Cons by (simp add: p)
  next
    case (Some e)
    then show ?thesis using cache_wf_touch[OF Cons.prems] by (simp add: p)
  qed
qed

lemma cache_wf_get_cached_response:
  assumes "cache_wf ce"
  shows "cache_wf (snd (get_cached_response lib ce q f t))"
proof -
  let ?ce1 = "snd (get_query_embedding lib ce q)"
  have w: "cache_wf ?ce1"
    using assms cache_wf_cong[OF get_query_embedding_frame(1,2), of lib ce q] by simp
  show ?thesis
  proof (cases "map_of (cache ?ce1) (md5_hexdigest lib (q @ f))")
    case None
    then show ?thesis using w
      by (simp add: get_cached_response_def split_beta Let_def cache_wf_semantic_lookup)
  next
    case (Some e)
    then show ?thesis using cache_wf_touch[OF w]
      by (simp add: get_cached_response_def split_beta Let_def)
  qed
qed

lemmas cache_simps = cache_response_def get_cached_response_def get_query_embedding_def
  evict_lru_entries_def remove_entry_def new_entry_def touch_def find_similar_queries_def
  constant_similarity_lib_def stored_entry_def stored_embedding_def full_cache_def ten_entry_cache_def
  cache_wf_def init_cache_engine_def Let_def

text \<open>
  C5. After \<^verbatim>\<open>cache_response(Q, F, R)\<close> the entry under the key of \<open>(Q, F)\<close> holds \<open>R\<close>
  with \<^verbatim>\<open>access_count = 1\<close>; a following \<^verbatim>\<open>get_cached_response(Q, F)\<close> returns \<open>R\<close>
  (an exact hit, without the annotations of a semantic hit) and leaves the entry with
  \<^verbatim>\<open>access_count\<close> incremented to 2 and \<^verbatim>\<open>last_accessed\<close> set to the time of the lookup.
\<close>

theorem exact_match_round_trip:
  "map_of (cache (cache_response lib ce q f r t1 t2 t3)) (md5_hexdigest lib (q @ f))
     = Some (new_entry r q t1 t2) \<and>
   access_count (new_entry r q t1 t2) = 1 \<and>
   fst (get_cached_response lib (cache_response lib ce q f r t1 t2 t3) q f t4) = Some r \<and>
   map_of (cache (snd (get_cached_response lib (cache_response lib ce q f r t1 t2 t3) q f t4)))
       (md5_hexdigest lib (q @ f))
     = Some ((new_entry r q t1 t2)\<lparr>access_count := 2, last_accessed := t4\<rparr>)"
proof -
  let ?k = "md5_hexdigest lib (q @ f)"
  let ?ce = "cache_response lib ce q f r t1 t2 t3"
  have st: "map_of (cache ?ce) ?k = Some (new_entry r q t1 t2)"
    by (simp add: cache_response_def Let_def update_conv' split: prod.splits)
  obtain emb ce1 where g: "get_query_embedding lib ?ce q = (emb, ce1)"
    by (cases "get_query_embedding lib ?ce q")
  have c1: "cache ce1 = cache ?ce" using get_query_embedding_frame(1)[of lib ?ce q] g by simp
  have lk: "get_cached_response lib ?ce q f t4 =
         (Some (response (new_entry r q t1 t2)),
          ce1\<lparr>cache := AList.update ?k (touch (new_entry r q t1 t2) t4) (cache ce1)\<rparr>)"
    using st by (simp add: get_cached_response_def g c1 Let_def)
  have "touch (new_entry r q t1 t2) t4 = (new_entry r q t1 t2)\<lparr>access_count := 2, last_accessed := t4\<rparr>"
    by (simp add: touch_def new_entry_def)
  then show ?thesis using st lk by (simp add: update_conv' new_entry_def)
qed

text \<open>
  C6. Take a lookup with no exact key match in a well-formed cache. If every stored
  embedding whose comparison with the query embedding succeeds has a cosine similarity below
  the configured threshold, the lookup returns no response. With the threshold lowered to a
  value that some stored embedding reaches, the same lookup returns the response of a cached
  entry of the highest similarity, with \<^verbatim>\<open>cache_similarity\<close> set to that similarity and
  \<^verbatim>\<open>cache_type\<close> set to \<^verbatim>\<open>'semantic'\<close>.
\<close>

theorem similarity_threshold_decides:
  assumes wf: "cache_wf ce"
    and miss: "map_of (cache ce) (md5_hexdigest lib (q @ f)) = None"
    and below: "\<forall>p \<in> set (embeddings ce).
             (case cosine_similarity lib (fst (get_query_embedding lib ce q))
                     (embedding (snd p)) of
                None \<Rightarrow> True | Some s \<Rightarrow> s < similarity_threshold ce)"
    and above: "(k, e) \<in> set (embeddings ce)"
      "cosine_similarity lib (fst (get_query_embedding lib ce q)) (embedding e) = Some s"
      "lower \<le> s"
  shows "fst (get_cached_response lib ce q f t) = None \<and>
         (\<exists>k' e' s' entry.
            (k', e') \<in> set (embeddings ce) \<and>
            cosine_similarity lib (fst (get_query_embedding lib ce q)) (embedding e') = Some s' \<and>
            lower \<le> s' \<and>
            (\<forall>p \<in> set (embeddings ce). \<forall>s''.
               cosine_similarity lib (fst (get_query_embedding lib ce q)) (embedding (snd p))
                 = Some s'' \<longrightarrow> s'' \<le> s') \<and>
            map_of (cache ce) k' = Some entry \<and>
            fst (get_cached_response lib (ce\<lparr>similarity_threshold := lower\<rparr>) q f t) =
              Some ((response entry)(''cache_similarity'' \<mapsto> PyFloat s',
                                      ''cache_type'' \<mapsto> PyStr ''semantic'')))"
proof -
  let ?emb = "fst (get_query_embedding lib ce q)"
  let ?ce1 = "snd (get_query_embedding lib ce q)"
  let ?k = "md5_hexdigest lib (q @ f)"
  note f1 = get_query_embedding_frame[of lib ce q]
  have "find_similar_queries lib ?ce1 ?emb = []"
  proof (rule find_similar_none)
    show "\<forall>p \<in> set (embeddings ?ce1).
             (case cosine_similarity lib ?emb (embedding (snd p)) of
                None \<Rightarrow> True | Some s \<Rightarrow> s < similarity_threshold ?ce1)"
      unfolding f1 by (rule below)
  qed
  then have part1: "fst (get_cached_response lib ce q f t) = None"
    using miss by (simp add: get_cached_response_def split_beta f1 Let_def)
  let ?ce' = "ce\<lparr>similarity_threshold := lower\<rparr>"
  let ?ce2 = "snd (get_query_embedding lib ?ce' q)"
  note f2 = get_query_embedding_threshold[where lib = lib and ce = ce and th = lower and q = q]
  have "\<exists>k' e' s' rest. find_similar_queries lib ?ce2 ?emb = (k', s') # rest \<and>
           (k', e') \<in> set (embeddings ?ce2) \<and>
           cosine_similarity lib ?emb (embedding e') = Some s' \<and>
           similarity_threshold ?ce2 \<le> s' \<and>
           (\<forall>p \<in> set (embeddings ?ce2). \<forall>s''.
              cosine_similarity lib ?emb (embedding (snd p)) = Some s'' \<longrightarrow> s'' \<le> s')"
    by (rule find_similar_best[of k e]) (use above f2 in simp_all)
  then obtain k' e' s' rest where b:
    "find_similar_queries lib ?ce2 ?emb = (k', s') # rest"
    "(k', e') \<in> set (embeddings ce)"
    "cosine_similarity lib ?emb (embedding e') = Some s'" "lower \<le> s'"
    "\<forall>p \<in> set (embeddings ce). \<forall>s''.
        cosine_similarity lib ?emb (embedding (snd p)) = Some s'' \<longrightarrow> s'' \<le> s'"
    unfolding f2 by blast
  have "k' \<in> fst ` set (cache ce)"
    using wf b(2) unfolding cache_wf_def by force
  then obtain entry where en: "map_of (cache ce) k' = Some entry"
    by (metis domD dom_map_of_conv_image_fst)
  have "fst (get_cached_response lib ?ce' q f t) =
          Some ((response entry)(''cache_similarity'' \<mapsto> PyFloat s',
                                  ''cache_type'' \<mapsto> PyStr ''semantic''))"
    using miss en b(1) by (simp add: get_cached_response_def split_beta f2 Let_def)
  then show ?thesis using part1 b(2-5) en by blast
qed

theorem similarity_threshold_decides_witness:
  "cache_wf full_cache \<and>
   map_of (cache full_cache) (md5_hexdigest (constant_similarity_lib (8 / 10)) (''how'' @ ''ctx''))
     = None \<and>
   similarity_threshold full_cache = 85 / 100 \<and>
   fst (get_cached_response (constant_similarity_lib (8 / 10)) full_cache ''how'' ''ctx'' 70)
     = None \<and>
   fst (get_cached_response (constant_similarity_lib (8 / 10))
          (full_cache\<lparr>similarity_threshold := 75 / 100\<rparr>) ''how'' ''ctx'' 70) \<noteq> None"
proof -
  let ?lib = "constant_similarity_lib (8 / 10)"
  have w: "cache_wf full_cache" by (simp add: cache_simps)
  have m: "map_of (cache full_cache) (md5_hexdigest ?lib (''how'' @ ''ctx'')) = None"
    by (simp add: cache_simps)
  have th: "similarity_threshold full_cache = 85 / 100" by (simp add: cache_simps)
  have b: "\<forall>p \<in> set (embeddings full_cache).
             (case cosine_similarity ?lib (fst (get_query_embedding ?lib full_cache ''how''))
                     (embedding (snd p)) of
                None \<Rightarrow> True | Some s \<Rightarrow> s < similarity_threshold full_cache)"
    by (simp add: cache_simps)
  have a: "(''k1'', stored_embedding ''k1'') \<in> set (embeddings full_cache)"
    "cosine_similarity ?lib (fst (get_query_embedding ?lib full_cache ''how''))
       (embedding (stored_embedding ''k1'')) = Some (8 / 10)"
    "(75 / 100 :: real) \<le> 8 / 10"
    by (simp_all add: cache_simps)
  show ?thesis
    using w m th similarity_threshold_decides[OF w m b a, of 70] by auto
qed

text \<open>
  C7, as the code has it. Let the cache hold exactly \<open>N\<close> = \<^verbatim>\<open>cache_size\<close> entries under
  distinct keys, with \<open>N\<close> divisible by 5, and let the key of the new query be none of them.
  Storing the response removes the \<open>N div 5\<close> entries that come first when the entries are
  sorted by \<^verbatim>\<open>last_accessed\<close> ascending (every removed entry was accessed no later than
  every kept one) and then appends the new entry with \<^verbatim>\<open>access_count = 1\<close>, so that the
  cache holds \<open>0.8 N + 1\<close> entries. That number is \<open>N\<close> again exactly when \<open>N = 5\<close>, where
  one entry goes and one comes; it is smaller than \<open>N\<close> exactly when \<open>N\<close> is above 5.
\<close>

theorem bulk_eviction:
  assumes d: "distinct (map fst (cache ce))"
    and full: "int (length (cache ce)) = cache_size ce"
    and five: "5 dvd length (cache ce)"
    and fresh: "md5_hexdigest lib (q @ f) \<notin> fst ` set (cache ce)"
  shows "5 * length (cache (cache_response lib ce q f r t1 t2 t3)) = 4 * length (cache ce) + 5 \<and>
         cache (cache_response lib ce q f r t1 t2 t3) =
           filter (\<lambda>p. p \<notin> set (take (length (cache ce) div 5)
                                (sort_key (\<lambda>x. last_accessed (snd x)) (cache ce))))
             (cache ce)
           @ [(md5_hexdigest lib (q @ f), new_entry r q t1 t2)] \<and>
         access_count (new_entry r q t1 t2) = 1 \<and>
         (\<forall>p \<in> set (take (length (cache ce) div 5)
                      (sort_key (\<lambda>x. last_accessed (snd x)) (cache ce))).
            p \<in> set (cache ce) \<and>
            (\<forall>kept \<in> set (cache ce) -
                 set (take (length (cache ce) div 5)
                        (sort_key (\<lambda>x. last_accessed (snd x)) (cache ce))).
               last_accessed (snd p) \<le> last_accessed (snd kept))) \<and>
         (length (cache (cache_response lib ce q f r t1 t2 t3)) = length (cache ce))
           = (length (cache ce) = 5) \<and>
         (length (cache (cache_response lib ce q f r t1 t2 t3)) < length (cache ce))
           = (5 < length (cache ce))"
proof -
  let ?k = "md5_hexdigest lib (q @ f)"
  let ?xs = "cache ce"
  let ?s = "sort_key (\<lambda>x. last_accessed (snd x)) ?xs"
  let ?n = "length ?xs div 5"
  let ?rm = "take ?n ?s"
  obtain emb ce1 where g: "get_query_embedding lib ce q = (emb, ce1)"
    by (cases "get_query_embedding lib ce q")
  have c1: "cache ce1 = ?xs" "cache_size ce1 = cache_size ce"
    using get_query_embedding_frame(1,3)[of lib ce q] g by simp_all
  have sub: "set ?rm \<subseteq> set ?xs" using set_take_subset[of ?n ?s] by simp
  have dx: "distinct ?xs" using d by (rule distinct_map[THEN iffD1, THEN conjunct1])
  have drm: "distinct ?rm" using dx by simp
  have keys: "\<And>p. p \<in> set ?xs \<Longrightarrow> (fst p \<notin> fst ` set ?rm) = (p \<notin> set ?rm)"
  proof -
    fix p assume p: "p \<in> set ?xs"
    show "(fst p \<notin> fst ` set ?rm) = (p \<notin> set ?rm)"
    proof
      assume "fst p \<notin> fst ` set ?rm" then show "p \<notin> set ?rm" by force
    next
      assume np: "p \<notin> set ?rm"
      show "fst p \<notin> fst ` set ?rm"
      proof
        assume "fst p \<in> fst ` set ?rm"
        then obtain r where r: "r \<in> set ?rm" "fst r = fst p" by force
        then have "r \<in> set ?xs" using sub by auto
        then have "r = p" using p r(2) d by (metis eq_key_imp_eq_value prod.collapse)
        then show False using r(1) np by simp
      qed
    qed
  qed
  have filt: "filter (\<lambda>p. fst p \<notin> fst ` set ?rm) ?xs = filter (\<lambda>p. p \<notin> set ?rm) ?xs"
    by (rule filter_cong) (simp_all add: keys)
  let ?ce2 = "if int (length (cache ce1)) \<ge> cache_size ce1 then evict_lru_entries ce1 else ce1"
  have ev: "cache ?ce2 = filter (\<lambda>p. p \<notin> set ?rm) ?xs"
  proof (cases "?xs = []")
    case True
    then show ?thesis using full c1 by (simp add: evict_lru_entries_def)
  next
    case False
    then have "0 < length ?xs" by simp
    then have "1 \<le> ?n" using five by (metis dvd_div_eq_0_iff length_0_conv less_one not_le_imp_less False)
    then have mx: "max (Suc 0) ?n = ?n" by simp
    have "cache (evict_lru_entries ce1) = filter (\<lambda>p. fst p \<notin> fst ` set ?rm) ?xs"
      using False c1 by (simp add: evict_lru_entries_def Let_def fold_remove_entry mx)
    then show ?thesis using full c1 filt by simp
  qed
  have nk: "?k \<notin> fst ` set (cache ?ce2)" using fresh unfolding ev by auto
  have res: "cache (cache_response lib ce q f r t1 t2 t3) =
               filter (\<lambda>p. p \<notin> set ?rm) ?xs @ [(?k, new_entry r q t1 t2)]"
    using alist_update_fresh[OF nk, of "new_entry r q t1 t2"] ev
    by (simp add: cache_response_def g Let_def)
  have "length (filter (\<lambda>p. fst p \<notin> fst ` set ?rm) ?xs) = length ?xs - length ?rm"
    by (rule length_filter_removed[OF d sub drm])
  then have "length (filter (\<lambda>p. p \<notin> set ?rm) ?xs) = length ?xs - ?n"
    unfolding filt by simp
  then have len: "5 * length (cache (cache_response lib ce q f r t1 t2 t3)) = 4 * length ?xs + 5"
    unfolding res using five by (auto elim: dvdE)
  have old: "\<forall>p \<in> set ?rm. p \<in> set ?xs \<and>
      (\<forall>kept \<in> set ?xs - set ?rm. last_accessed (snd p) \<le> last_accessed (snd kept))"
  proof (intro ballI conjI)
    fix p assume p: "p \<in> set ?rm"
    show "p \<in> set ?xs" using p sub by auto
    fix kept assume "kept \<in> set ?xs - set ?rm"
    then show "last_accessed (snd p) \<le> last_accessed (snd kept)"
      using sorted_take_le_rest[OF p, of kept] by simp
  qed
  have eqN: "(length (cache (cache_response lib ce q f r t1 t2 t3)) = length ?xs)
              = (length ?xs = 5)"
    using len by arith
  have ltN: "(length (cache (cache_response lib ce q f r t1 t2 t3)) < length ?xs)
              = (5 < length ?xs)"
    using len by arith
  have ac: "access_count (new_entry r q t1 t2) = 1" by (simp add: new_entry_def)
  show ?thesis using len res old ac eqN ltN by blast
qed

theorem bulk_eviction_witness:
  "distinct (map fst (cache ten_entry_cache)) \<and>
   int (length (cache ten_entry_cache)) = cache_size ten_entry_cache \<and>
   5 dvd length (cache ten_entry_cache) \<and>
   md5_hexdigest (constant_similarity_lib 0) (''new question'' @ ''ctx'')
     \<notin> fst ` set (cache ten_entry_cache) \<and>
   length (cache ten_entry_cache) = 10 \<and>
   take (length (cache ten_entry_cache) div 5)
     (sort_key (\<lambda>x. last_accessed (snd x)) (cache ten_entry_cache))
     = [(''k2'', stored_entry ''a2'' 10), (''k4'', stored_entry ''a4'' 20)] \<and>
   5 * length (cache (cache_response (constant_similarity_lib 0) ten_entry_cache
                        ''new question'' ''ctx'' [''answer'' \<mapsto> PyStr ''a10''] 110 111 112))
     = 4 * length (cache ten_entry_cache) + 5 \<and>
   length (cache (cache_response (constant_similarity_lib 0) ten_entry_cache
                    ''new question'' ''ctx'' [''answer'' \<mapsto> PyStr ''a10''] 110 111 112))
     < length (cache ten_entry_cache)"
proof -
  have d: "distinct (map fst (cache ten_entry_cache))" by (simp add: cache_simps)
  have n: "int (length (cache ten_entry_cache)) = cache_size ten_entry_cache"
    by (simp add: cache_simps)
  have l: "length (cache ten_entry_cache) = 10" by (simp add: cache_simps)
  then have v: "5 dvd length (cache ten_entry_cache)" by simp
  have k: "md5_hexdigest (constant_similarity_lib 0) (''new question'' @ ''ctx'')
             \<notin> fst ` set (cache ten_entry_cache)" by (simp add: cache_simps)
  have o: "take (length (cache ten_entry_cache) div 5)
     (sort_key (\<lambda>x. last_accessed (snd x)) (cache ten_entry_cache))
     = [(''k2'', stored_entry ''a2'' 10), (''k4'', stored_entry ''a4'' 20)]"
    by (simp add: cache_simps)
  have g: "5 < length (cache ten_entry_cache)" using l by simp
  show ?thesis
    using d n v k l o g
      bulk_eviction[OF d n v k, of "[''answer'' \<mapsto> PyStr ''a10'']" 110 111 112]
    by blast
qed

text \<open>
  The claim as stated fails in its last words: a cache of capacity 5 that holds five
  entries holds five entries again after the store, which is \<open>N\<close>.
\<close>

theorem bulk_eviction_counterexample:
  "int (length (cache full_cache)) = cache_size full_cache \<and>
   length (cache full_cache) = 5 \<and>
   md5_hexdigest (constant_similarity_lib 0) (''new question'' @ ''ctx'')
     \<notin> fst ` set (cache full_cache) \<and>
   length (cache (cache_response (constant_similarity_lib 0) full_cache
                    ''new question'' ''ctx'' [''answer'' \<mapsto> PyStr ''a6''] 60 61 62))
     = length (cache full_cache)"
  by (simp add: cache_simps)

section \<open>Model selection\<close>

text \<open>
  C10. For every task type and every urgency, \<^verbatim>\<open>get_optimal_model\<close> returns the constant
  name \<^verbatim>\<open>'tinyllama'\<close>, whatever the residency state; the \<^verbatim>\<open>urgency == 'high'\<close>
  branch changes only the logged line.
\<close>

theorem get_optimal_model_constant:
  "fst (get_optimal_model m task_type urgency) = ''tinyllama''"
  by (simp add: get_optimal_model_def Let_def)

end
